theory Spec2Isabelle
  imports Complex_Main "HOL-Library.Sublist"
begin

section \<open>Strings\<close>

text \<open>
  Python strings are modelled as \<open>string\<close> restricted to ASCII: \<open>str.lower()\<close>
  maps the letters A-Z to a-z and leaves every other character alone, and
  \<open>str.strip()\<close> removes the ASCII whitespace characters from both ends.
\<close>

definition ascii_uppercase :: string where
  "ascii_uppercase = ''ABCDEFGHIJKLMNOPQRSTUVWXYZ''"

definition ascii_lowercase :: string where
  "ascii_lowercase = ''abcdefghijklmnopqrstuvwxyz''"

definition lower_char :: "char \<Rightarrow> char" where
  "lower_char ch =
     (case map_of (zip ascii_uppercase ascii_lowercase) ch of
        Some l \<Rightarrow> l
      | None \<Rightarrow> ch)"

definition lower :: "string \<Rightarrow> string" where
  "lower s = map lower_char s"

definition whitespace :: string where
  "whitespace = [CHR '' '', CHR 0x09, CHR 0x0A, CHR 0x0B, CHR 0x0C, CHR 0x0D,
                 CHR 0x1C, CHR 0x1D, CHR 0x1E, CHR 0x1F]"

definition is_space :: "char \<Rightarrow> bool" where
  "is_space ch = (ch \<in> set whitespace)"

definition strip :: "string \<Rightarrow> string" where
  "strip s = rev (dropWhile is_space (rev (dropWhile is_space s)))"


section \<open>Unpickled values, errors, containers\<close>

text \<open>
  What \<open>pickle.load\<close> hands to \<open>load\<close> is dynamically typed. The values the
  build can meet are modelled by \<open>pyval\<close>; a dict is the list of its items in
  insertion order.
\<close>

datatype pyval =
    PNone
  | PInt int
  | PStr string
  | PList "pyval list"
  | PDict "(pyval \<times> pyval) list"

datatype error = FileNotFoundError | UnpicklingError | AttributeError | TypeError

text \<open>A file as \<open>load\<close> sees it: either it unpickles to a value or \<open>pickle.load\<close> raises.\<close>

datatype pickle_file = Corrupt | Pickled pyval

text \<open>\<open>d.get(key, default)\<close>; raises \<open>AttributeError\<close> when \<open>d\<close> is not a dict.\<close>

definition py_get :: "pyval \<Rightarrow> string \<Rightarrow> pyval \<Rightarrow> error + pyval" where
  "py_get d key dflt =
     (case d of
        PDict kvs \<Rightarrow> (case map_of kvs (PStr key) of Some v \<Rightarrow> Inr v | None \<Rightarrow> Inr dflt)
      | _ \<Rightarrow> Inl AttributeError)"

text \<open>\<open>d.items()\<close>; raises \<open>AttributeError\<close> when \<open>d\<close> is not a dict.\<close>

definition py_items :: "pyval \<Rightarrow> error + (pyval \<times> pyval) list" where
  "py_items d = (case d of PDict kvs \<Rightarrow> Inr kvs | _ \<Rightarrow> Inl AttributeError)"

text \<open>
  \<open>for x in v\<close>: a list yields its elements, a string its characters, a dict its
  keys; anything else raises \<open>TypeError\<close>.
\<close>

definition py_iter :: "pyval \<Rightarrow> error + pyval list" where
  "py_iter v =
     (case v of
        PList xs \<Rightarrow> Inr xs
      | PStr s \<Rightarrow> Inr (map (\<lambda>ch. PStr [ch]) s)
      | PDict kvs \<Rightarrow> Inr (map fst kvs)
      | _ \<Rightarrow> Inl TypeError)"

text \<open>
  A dict whose items are iterated is an association list in insertion order:
  \<open>d[k] = v\<close> replaces the value of an existing key in place and appends a new key.
\<close>

fun dict_set :: "'k \<Rightarrow> 'v \<Rightarrow> ('k \<times> 'v) list \<Rightarrow> ('k \<times> 'v) list" where
  "dict_set k v [] = [(k, v)]"
| "dict_set k v ((k', v') # d) =
     (if k' = k then (k, v) # d else (k', v') # dict_set k v d)"

text \<open>\<open>d[k].method(...)\<close> on an existing key: the value at \<open>k\<close> is replaced by \<open>f\<close> of it.\<close>

definition dict_modify :: "('v \<Rightarrow> 'v) \<Rightarrow> 'k \<Rightarrow> ('k \<times> 'v) list \<Rightarrow> ('k \<times> 'v) list" where
  "dict_modify f k d = map (\<lambda>(k', v). if k' = k then (k', f v) else (k', v)) d"

text \<open>
  A set that is iterated (the values of \<open>tables_by_schema\<close> and \<open>columns_by_table\<close>)
  is a duplicate-free list; \<open>s.add(x)\<close> appends \<open>x\<close> unless it is there. The order in
  which Python iterates a set is unspecified, so nothing below relies on it.
\<close>

definition set_add :: "'a \<Rightarrow> 'a list \<Rightarrow> 'a list" where
  "set_add x xs = (if x \<in> set xs then xs else xs @ [x])"

section \<open>EnvironmentCache\<close>

record environment_cache =
  environment :: string
  schemas :: pyval
  schemas_set :: "string set"
  tables_set :: "string set"
  columns_set :: "string set"
  schemas_list :: "string list"
  tables_list :: "string list"
  columns_list :: "string list"
  schemas_map :: "string \<rightharpoonup> string"
  tables_map :: "string \<rightharpoonup> string"
  columns_map :: "string \<rightharpoonup> string"
  tables_by_schema :: "(string \<times> string list) list"
  tables_list_by_schema :: "string \<rightharpoonup> string list"
  columns_by_table :: "((string \<times> string) \<times> string list) list"
  columns_list_by_table :: "string \<times> string \<rightharpoonup> string list"
  qualified_tables_list :: "string list"
  qualified_tables_map :: "string \<rightharpoonup> string"
  qualified_columns_list :: "string list"
  qualified_columns_map :: "string \<rightharpoonup> string"
  exported_at :: pyval
  loaded_at :: "nat option"
  is_loaded :: bool

text \<open>The dataclass defaults: \<open>EnvironmentCache()\<close>.\<close>

definition new_cache :: environment_cache where
  "new_cache =
     \<lparr> environment = [], schemas = PDict [],
       schemas_set = {}, tables_set = {}, columns_set = {},
       schemas_list = [], tables_list = [], columns_list = [],
       schemas_map = Map.empty, tables_map = Map.empty, columns_map = Map.empty,
       tables_by_schema = [], tables_list_by_schema = Map.empty,
       columns_by_table = [], columns_list_by_table = Map.empty,
       qualified_tables_list = [], qualified_tables_map = Map.empty,
       qualified_columns_list = [], qualified_columns_map = Map.empty,
       exported_at = PNone, loaded_at = None, is_loaded = False \<rparr>"

definition reset_structures :: "environment_cache \<Rightarrow> environment_cache" where
  "reset_structures c =
     c\<lparr> schemas := PDict [],
        schemas_set := {}, tables_set := {}, columns_set := {},
        schemas_list := [], tables_list := [], columns_list := [],
        schemas_map := Map.empty, tables_map := Map.empty, columns_map := Map.empty,
        tables_by_schema := [], tables_list_by_schema := Map.empty,
        columns_by_table := [], columns_list_by_table := Map.empty,
        qualified_tables_list := [], qualified_tables_map := Map.empty,
        qualified_columns_list := [], qualified_columns_map := Map.empty \<rparr>"

subsection \<open>The body of the three nested loops of \<open>_build_from_raw_data\<close>\<close>

text \<open>
  Each \<open>register_*\<close> function is the straight-line block of one loop body, after
  \<open>.lower()\<close> on the loop variable has succeeded. The subscripts
  \<open>tables_by_schema[schema_lower]\<close> and \<open>columns_by_table[table_key]\<close> read keys that
  the enclosing iteration has just assigned, so they cannot raise \<open>KeyError\<close>; the
  model leaves the dict alone if the key were missing.
\<close>

definition register_schema :: "string \<Rightarrow> environment_cache \<Rightarrow> environment_cache" where
  "register_schema schema_name c =
     (let schema_lower = lower schema_name in
      c\<lparr> schemas_set := insert schema_lower (schemas_set c),
         schemas_list := schemas_list c @ [schema_lower],
         schemas_map := (schemas_map c)(schema_lower \<mapsto> schema_name),
         tables_by_schema := dict_set schema_lower [] (tables_by_schema c),
         tables_list_by_schema := (tables_list_by_schema c)(schema_lower \<mapsto> []) \<rparr>)"

definition register_table :: "string \<Rightarrow> string \<Rightarrow> environment_cache \<Rightarrow> environment_cache" where
  "register_table schema_name table_name c =
     (let schema_lower = lower schema_name;
          table_lower = lower table_name;
          first_seen = (tables_map c table_lower = None);
          table_key = (schema_lower, table_lower);
          qualified_table = schema_name @ ''.'' @ table_name;
          qualified_table_lower = lower qualified_table
      in
      c\<lparr> tables_set := insert table_lower (tables_set c),
         tables_list := (if first_seen then tables_list c @ [table_lower] else tables_list c),
         tables_map := (if first_seen then (tables_map c)(table_lower \<mapsto> table_name)
                        else tables_map c),
         tables_by_schema := dict_modify (set_add table_lower) schema_lower (tables_by_schema c),
         tables_list_by_schema :=
           (case tables_list_by_schema c schema_lower of
              Some l \<Rightarrow> (tables_list_by_schema c)(schema_lower \<mapsto> l @ [table_lower])
            | None \<Rightarrow> tables_list_by_schema c),
         columns_by_table := dict_set table_key [] (columns_by_table c),
         columns_list_by_table := (columns_list_by_table c)(table_key \<mapsto> []),
         qualified_tables_list := qualified_tables_list c @ [qualified_table_lower],
         qualified_tables_map := (qualified_tables_map c)(qualified_table_lower \<mapsto> qualified_table) \<rparr>)"

definition register_column ::
  "string \<Rightarrow> string \<Rightarrow> string \<Rightarrow> environment_cache \<Rightarrow> environment_cache" where
  "register_column schema_name table_name column_name c =
     (let column_lower = lower column_name;
          first_seen = (columns_map c column_lower = None);
          table_key = (lower schema_name, lower table_name);
          qualified_column = schema_name @ ''.'' @ table_name @ ''.'' @ column_name;
          qualified_column_lower = lower qualified_column
      in
      c\<lparr> columns_set := insert column_lower (columns_set c),
         columns_list := (if first_seen then columns_list c @ [column_lower] else columns_list c),
         columns_map := (if first_seen then (columns_map c)(column_lower \<mapsto> column_name)
                         else columns_map c),
         columns_by_table := dict_modify (set_add column_lower) table_key (columns_by_table c),
         columns_list_by_table :=
           (case columns_list_by_table c table_key of
              Some l \<Rightarrow> (columns_list_by_table c)(table_key \<mapsto> l @ [column_lower])
            | None \<Rightarrow> columns_list_by_table c),
         qualified_columns_list := qualified_columns_list c @ [qualified_column_lower],
         qualified_columns_map :=
           (qualified_columns_map c)(qualified_column_lower \<mapsto> qualified_column) \<rparr>)"

subsection \<open>The loops\<close>

text \<open>
  A loop returns the exception it raised, if any, together with the cache as the
  exception left it: the object is mutated in place, so a caller that catches the
  exception sees that state.
\<close>

fun columns_loop ::
  "string \<Rightarrow> string \<Rightarrow> pyval list \<Rightarrow> environment_cache \<Rightarrow> error option \<times> environment_cache" where
  "columns_loop schema_name table_name [] c = (None, c)"
| "columns_loop schema_name table_name (v # vs) c =
     (case v of
        PStr column_name \<Rightarrow>
          columns_loop schema_name table_name vs
            (register_column schema_name table_name column_name c)
      | _ \<Rightarrow> (Some AttributeError, c))"

fun tables_loop ::
  "string \<Rightarrow> (pyval \<times> pyval) list \<Rightarrow> environment_cache \<Rightarrow> error option \<times> environment_cache" where
  "tables_loop schema_name [] c = (None, c)"
| "tables_loop schema_name ((k, columns) # rest) c =
     (case k of
        PStr table_name \<Rightarrow>
          (let c1 = register_table schema_name table_name c in
           case py_iter columns of
             Inl e \<Rightarrow> (Some e, c1)
           | Inr vs \<Rightarrow>
               (case columns_loop schema_name table_name vs c1 of
                  (Some e, c2) \<Rightarrow> (Some e, c2)
                | (None, c2) \<Rightarrow> tables_loop schema_name rest c2))
      | _ \<Rightarrow> (Some AttributeError, c))"

fun schemas_loop ::
  "(pyval \<times> pyval) list \<Rightarrow> environment_cache \<Rightarrow> error option \<times> environment_cache" where
  "schemas_loop [] c = (None, c)"
| "schemas_loop ((k, schema_data) # rest) c =
     (case k of
        PStr schema_name \<Rightarrow>
          (let c1 = register_schema schema_name c in
           case py_get schema_data ''tables'' (PDict []) of
             Inl e \<Rightarrow> (Some e, c1)
           | Inr tables_data \<Rightarrow>
               (case py_items tables_data of
                  Inl e \<Rightarrow> (Some e, c1)
                | Inr items \<Rightarrow>
                    (case tables_loop schema_name items c1 of
                       (Some e, c2) \<Rightarrow> (Some e, c2)
                     | (None, c2) \<Rightarrow> schemas_loop rest c2)))
      | _ \<Rightarrow> (Some AttributeError, c))"

definition build_from_raw_data ::
  "pyval \<Rightarrow> environment_cache \<Rightarrow> error option \<times> environment_cache" where
  "build_from_raw_data data c =
     (case py_get data ''exported_at'' PNone of
        Inl e \<Rightarrow> (Some e, c)
      | Inr ea \<Rightarrow>
          (case py_get data ''schemas'' (PDict []) of
             Inl e \<Rightarrow> (Some e, c\<lparr>exported_at := ea\<rparr>)
           | Inr raw_schemas \<Rightarrow>
               (let c1 = (reset_structures (c\<lparr>exported_at := ea\<rparr>))\<lparr>schemas := raw_schemas\<rparr> in
                case py_items raw_schemas of
                  Inl e \<Rightarrow> (Some e, c1)
                | Inr items \<Rightarrow> schemas_loop items c1)))"

text \<open>
  \<open>load\<close>: the file system is a map from paths to files, \<open>now\<close> is what
  \<open>datetime.now()\<close> returns.
\<close>

definition load ::
  "(string \<rightharpoonup> pickle_file) \<Rightarrow> nat \<Rightarrow> string \<Rightarrow> string \<Rightarrow> environment_cache
     \<Rightarrow> error option \<times> environment_cache" where
  "load fs now pickle_path env c =
     (case fs pickle_path of
        None \<Rightarrow> (Some FileNotFoundError, c)
      | Some Corrupt \<Rightarrow> (Some UnpicklingError, c)
      | Some (Pickled data) \<Rightarrow>
          (case build_from_raw_data data (c\<lparr>environment := env\<rparr>) of
             (Some e, c1) \<Rightarrow> (Some e, c1)
           | (None, c1) \<Rightarrow> (None, c1\<lparr>loaded_at := Some now, is_loaded := True\<rparr>)))"

subsection \<open>Lookups\<close>

text \<open>\<open>if arg: f(arg) else: d\<close> for an optional string argument.\<close>

definition if_truthy :: "string option \<Rightarrow> (string \<Rightarrow> 'a) \<Rightarrow> 'a \<Rightarrow> 'a" where
  "if_truthy arg f d = (case arg of None \<Rightarrow> d | Some v \<Rightarrow> if v \<noteq> [] then f v else d)"

definition get_original_schema :: "environment_cache \<Rightarrow> string \<Rightarrow> string option" where
  "get_original_schema c normalized = schemas_map c normalized"

definition get_original_table :: "environment_cache \<Rightarrow> string \<Rightarrow> string option" where
  "get_original_table c normalized = tables_map c normalized"

definition get_original_column :: "environment_cache \<Rightarrow> string \<Rightarrow> string option" where
  "get_original_column c normalized = columns_map c normalized"


definition table_exists :: "environment_cache \<Rightarrow> string \<Rightarrow> string option \<Rightarrow> bool" where
  "table_exists c name schema =
     (let table_lower = lower name in
      if_truthy schema
        (\<lambda>s. let schema_lower = lower s;
                 tables = (case map_of (tables_by_schema c) schema_lower of
                             Some ts \<Rightarrow> ts | None \<Rightarrow> [])
             in table_lower \<in> set tables)
        (table_lower \<in> tables_set c))"

definition column_exists ::
  "environment_cache \<Rightarrow> string \<Rightarrow> string option \<Rightarrow> string option \<Rightarrow> bool" where
  "column_exists c name schema table =
     (let column_lower = lower name;
          global = (column_lower \<in> columns_set c)
      in
      if_truthy schema
        (\<lambda>s. if_truthy table
           (\<lambda>t. let key = (lower s, lower t);
                    columns = (case map_of (columns_by_table c) key of
                                 Some cs \<Rightarrow> cs | None \<Rightarrow> [])
                in column_lower \<in> set columns)
           global)
        global)"

definition get_candidates_for_scope ::
  "environment_cache \<Rightarrow> string \<Rightarrow> string option \<Rightarrow> string option \<Rightarrow> string list" where
  "get_candidates_for_scope c scope schema table =
     (if scope = ''schema'' then schemas_list c
      else if scope = ''table'' then
        if_truthy schema
          (\<lambda>s. case tables_list_by_schema c (lower s) of Some l \<Rightarrow> l | None \<Rightarrow> [])
          (tables_list c)
      else if scope = ''column'' then
        if_truthy schema
          (\<lambda>s. if_truthy table
             (\<lambda>t. case columns_list_by_table c (lower s, lower t) of
                     Some l \<Rightarrow> l | None \<Rightarrow> [])
             (columns_list c))
          (columns_list c)
      else [])"

definition get_original_for_scope :: "environment_cache \<Rightarrow> string \<Rightarrow> string \<Rightarrow> string option" where
  "get_original_for_scope c scope normalized =
     (if scope = ''schema'' then get_original_schema c normalized
      else if scope = ''table'' then get_original_table c normalized
      else if scope = ''column'' then get_original_column c normalized
      else None)"




section \<open>FuzzyMatcher\<close>

text \<open>
  The scorer (\<open>fuzz.WRatio\<close>) belongs to the rapidfuzz library and is a parameter. It
  returns a float between 0 and 100; floats are compared and truncated only, so
  they are modelled by reals.
\<close>

type_synonym scorer = "string \<Rightarrow> string \<Rightarrow> real"

text \<open>
  Modelled from the spec: \<open>process.extract\<close> is a function of the rapidfuzz library, whose
  code is not part of the repository. It scores every choice against the query, drops
  the choices scoring below \<open>score_cutoff\<close>, orders the rest by descending score,
  choices of equal score in input order, and returns the first \<open>limit\<close> of them as
  triples (choice, score, index).
\<close>

definition process_extract ::
  "scorer \<Rightarrow> string \<Rightarrow> string list \<Rightarrow> int \<Rightarrow> int \<Rightarrow> (string \<times> real \<times> nat) list" where
  "process_extract scorer query choices limit score_cutoff =
     take (nat limit)
       (sort_key (\<lambda>(choice, score, index). - score)
          (filter (\<lambda>(choice, score, index). of_int score_cutoff \<le> score)
             (map (\<lambda>(index, choice). (choice, scorer query choice, index))
                  (enumerate 0 choices))))"

text \<open>\<open>int(x)\<close> on a float truncates towards zero.\<close>

definition py_int :: "real \<Rightarrow> int" where
  "py_int x = (if 0 \<le> x then \<lfloor>x\<rfloor> else \<lceil>x\<rceil>)"

record fuzzy_matcher =
  threshold :: int
  max_results :: int

text \<open>A \<open>FuzzyMatch\<close> is the pair (name, score).\<close>

definition find_matches ::
  "fuzzy_matcher \<Rightarrow> scorer \<Rightarrow> string \<Rightarrow> string list \<Rightarrow> int option \<Rightarrow> int option
     \<Rightarrow> (string \<times> int) list" where
  "find_matches fm scorer query candidates threshold_arg limit_arg =
     (if candidates = [] then []
      else
        let effective_threshold = (case threshold_arg of Some t \<Rightarrow> t | None \<Rightarrow> threshold fm);
            effective_limit = (case limit_arg of Some l \<Rightarrow> l | None \<Rightarrow> max_results fm);
            query_normalized = strip (lower query);
            results = process_extract scorer query_normalized candidates
                        effective_limit effective_threshold
        in map (\<lambda>(m, score, index). (m, py_int score)) results)"

section \<open>Validator\<close>


record request_context =
  schema_name :: "string option"
  table_name :: "string option"


record validator =
  cache :: environment_cache
  fuzzy_matcher :: fuzzy_matcher







section \<open>The typeahead endpoint\<close>




section \<open>Well-shaped snapshots\<close>

text \<open>
  A snapshot of the shape the build expects: schema names with their tables, each
  table with its list of column names, in the order of the dicts.
\<close>

type_synonym raw_tables = "(string \<times> string list) list"
type_synonym raw_schemas = "(string \<times> raw_tables) list"

definition encode_tables :: "raw_tables \<Rightarrow> (pyval \<times> pyval) list" where
  "encode_tables ts = map (\<lambda>(t, cols). (PStr t, PList (map PStr cols))) ts"

definition encode_schemas :: "raw_schemas \<Rightarrow> (pyval \<times> pyval) list" where
  "encode_schemas raw =
     map (\<lambda>(s, ts). (PStr s, PDict [(PStr ''tables'', PDict (encode_tables ts))])) raw"

definition snapshot :: "raw_schemas \<Rightarrow> pyval \<Rightarrow> pyval" where
  "snapshot raw ea = PDict [(PStr ''schemas'', PDict (encode_schemas raw)), (PStr ''exported_at'', ea)]"

text \<open>What the loops do on a well-shaped snapshot, where nothing can raise.\<close>

definition build_table :: "string \<Rightarrow> string \<times> string list \<Rightarrow> environment_cache \<Rightarrow> environment_cache" where
  "build_table sn = (\<lambda>(tn, cols) c. fold (register_column sn tn) cols (register_table sn tn c))"

definition build_schema :: "string \<times> raw_tables \<Rightarrow> environment_cache \<Rightarrow> environment_cache" where
  "build_schema = (\<lambda>(sn, ts) c. fold (build_table sn) ts (register_schema sn c))"

definition build_index :: "raw_schemas \<Rightarrow> environment_cache \<Rightarrow> environment_cache" where
  "build_index raw c = fold build_schema raw c"

section \<open>Notions used to state the properties\<close>


text \<open>Invariants of the lookup structures, kept by every step of the build.\<close>

definition inv_schemas :: "environment_cache \<Rightarrow> bool" where
  "inv_schemas c \<longleftrightarrow>
     schemas_set c = set (schemas_list c) \<and> dom (schemas_map c) = schemas_set c
     \<and> (\<forall>k v. schemas_map c k = Some v \<longrightarrow> lower v = k)"

definition inv_tables :: "environment_cache \<Rightarrow> bool" where
  "inv_tables c \<longleftrightarrow>
     tables_set c = set (tables_list c) \<and> dom (tables_map c) = tables_set c
     \<and> distinct (tables_list c)
     \<and> (\<forall>k v. tables_map c k = Some v \<longrightarrow> lower v = k)"

definition inv_columns :: "environment_cache \<Rightarrow> bool" where
  "inv_columns c \<longleftrightarrow>
     columns_set c = set (columns_list c) \<and> dom (columns_map c) = columns_set c
     \<and> distinct (columns_list c)
     \<and> (\<forall>k v. columns_map c k = Some v \<longrightarrow> lower v = k)"

definition scoped_inv :: "('k \<times> 'a list) list \<Rightarrow> ('k \<rightharpoonup> 'a list) \<Rightarrow> 'a set \<Rightarrow> bool" where
  "scoped_inv d l S \<longleftrightarrow>
     (\<forall>k. map_of d k = None \<longrightarrow> l k = None)
     \<and> (\<forall>k xs. map_of d k = Some xs \<longrightarrow>
            set xs \<subseteq> S \<and> distinct xs \<and> (\<exists>ys. l k = Some ys \<and> set ys = set xs))"

definition inv_tables_by_schema :: "environment_cache \<Rightarrow> bool" where
  "inv_tables_by_schema c \<longleftrightarrow>
     scoped_inv (tables_by_schema c) (tables_list_by_schema c) (tables_set c)"

definition inv_columns_by_table :: "environment_cache \<Rightarrow> bool" where
  "inv_columns_by_table c \<longleftrightarrow>
     scoped_inv (columns_by_table c) (columns_list_by_table c) (columns_set c)"

definition cache_inv :: "environment_cache \<Rightarrow> bool" where
  "cache_inv c \<longleftrightarrow>
     inv_schemas c \<and> inv_tables c \<and> inv_columns c
     \<and> inv_tables_by_schema c \<and> inv_columns_by_table c"

section \<open>Example inputs\<close>

text \<open>
  The similarity ratio of rapidfuzz (\<open>fuzz.ratio\<close>): 100 times twice the length of a
  longest common subsequence, over the sum of the two lengths. \<open>fuzz.WRatio\<close> returns 0
  when either string is empty, and coincides with this ratio on two single words whose
  lengths differ by a factor below 1.5. It is the scorer of the examples.
\<close>

fun lcs_length :: "'a list \<Rightarrow> 'a list \<Rightarrow> nat" where
  "lcs_length [] ys = 0"
| "lcs_length (x # xs) [] = 0"
| "lcs_length (x # xs) (y # ys) =
     (if x = y then Suc (lcs_length xs ys)
      else max (lcs_length xs (y # ys)) (lcs_length (x # xs) ys))"

definition indel_ratio :: scorer where
  "indel_ratio s1 s2 =
     (if s1 = [] \<or> s2 = [] then 0
      else 100 * real (2 * lcs_length s1 s2) / real (length s1 + length s2))"

text \<open>The matcher built from the default settings: threshold 50, at most 5 suggestions.\<close>

definition default_matcher :: fuzzy_matcher where
  "default_matcher = \<lparr> threshold = 50, max_results = 5 \<rparr>"

text \<open>The index a fresh cache holds after loading a well-shaped snapshot.\<close>

definition index_of :: "raw_schemas \<Rightarrow> environment_cache" where
  "index_of raw =
     snd (load [''metadata_dev.pkl'' \<mapsto> Pickled (snapshot raw PNone)] 0
            ''metadata_dev.pkl'' ''dev'' new_cache)"

definition sample_raw :: raw_schemas where
  "sample_raw = [(''public'', [(''Student'', [''id'', ''name'', ''email''])])]"


definition unnamed_table_raw :: raw_schemas where
  "unnamed_table_raw = [(''public'', [([], [''id''])])]"



text \<open>
  The order of the matcher's results: by descending scorer score, equal scores by
  position in the candidate list; on candidate positions and on scored triples.
\<close>

definition ranked_before :: "scorer \<Rightarrow> string \<Rightarrow> string list \<Rightarrow> nat \<Rightarrow> nat \<Rightarrow> bool" where
  "ranked_before scorer q cands i j \<longleftrightarrow>
     scorer q (cands ! j) < scorer q (cands ! i)
     \<or> (scorer q (cands ! i) = scorer q (cands ! j) \<and> i < j)"

definition triple_before :: "string \<times> real \<times> nat \<Rightarrow> string \<times> real \<times> nat \<Rightarrow> bool" where
  "triple_before a b \<longleftrightarrow>
     fst (snd b) < fst (snd a) \<or> (fst (snd a) = fst (snd b) \<and> snd (snd a) < snd (snd b))"

text \<open>A snapshot whose schema entry is not a dict, and three file systems.\<close>

definition malformed_snapshot :: pyval where
  "malformed_snapshot = PDict [(PStr ''schemas'', PDict [(PStr ''S'', PNone)])]"

definition corrupt_fs :: "string \<rightharpoonup> pickle_file" where
  "corrupt_fs = [''metadata_dev.pkl'' \<mapsto> Corrupt]"

definition malformed_fs :: "string \<rightharpoonup> pickle_file" where
  "malformed_fs = [''metadata_dev.pkl'' \<mapsto> Pickled malformed_snapshot]"

definition sample_fs :: "string \<rightharpoonup> pickle_file" where
  "sample_fs = [''metadata_dev.pkl'' \<mapsto> Pickled (snapshot sample_raw PNone)]"

section \<open>The names of a snapshot\<close>

text \<open>
  The names a well-shaped snapshot declares, in the order the build iterates over them:
  the schema names, the table entries (schema name, table name, column names), the table
  names and the column names; by scope; the column list of the last table entry of a
  normalized (schema, table) key; and the first name of a list for each normalized name.
\<close>

definition schema_names :: "raw_schemas \<Rightarrow> string list" where
  "schema_names raw = map fst raw"

definition table_entries :: "raw_schemas \<Rightarrow> (string \<times> string \<times> string list) list" where
  "table_entries raw = concat (map (\<lambda>(s, ts). map (\<lambda>(t, cols). (s, t, cols)) ts) raw)"

definition table_names :: "raw_schemas \<Rightarrow> string list" where
  "table_names raw = map (\<lambda>(s, t, cols). t) (table_entries raw)"

definition column_names :: "raw_schemas \<Rightarrow> string list" where
  "column_names raw = concat (map (\<lambda>(s, t, cols). cols) (table_entries raw))"

definition names_at :: "string \<Rightarrow> raw_schemas \<Rightarrow> string list" where
  "names_at scope raw =
     (if scope = ''schema'' then schema_names raw
      else if scope = ''table'' then table_names raw
      else if scope = ''column'' then column_names raw
      else [])"

definition last_declared :: "raw_schemas \<Rightarrow> string \<times> string \<rightharpoonup> string list" where
  "last_declared raw =
     map_of (rev (map (\<lambda>(s, t, cols). ((lower s, lower t), cols)) (table_entries raw)))"

definition first_casing :: "string list \<Rightarrow> string \<rightharpoonup> string" where
  "first_casing names = map_of (map (\<lambda>n. (lower n, n)) names)"



text \<open>
  Snapshots with names that differ by case only, with a repeated column, and with the
  same table name under several schemas.
\<close>

definition case_variant_tables_raw :: raw_schemas where
  "case_variant_tables_raw = [(''A'', [(''Users'', [])]), (''B'', [(''USERS'', [])])]"

definition duplicate_column_raw :: raw_schemas where
  "duplicate_column_raw = [(''S'', [(''T'', [''id'', ''ID''])])]"

definition redeclared_table_raw :: raw_schemas where
  "redeclared_table_raw = [(''S'', [(''T'', [''a'']), (''t'', [''b''])])]"

definition case_variant_schemas_raw :: raw_schemas where
  "case_variant_schemas_raw = [(''A'', []), (''a'', [])]"


section \<open>Properties of strings\<close>

lemma lower_char_idem: "lower_char (lower_char ch) = lower_char ch"
proof (cases "map_of (zip ascii_uppercase ascii_lowercase) ch")
  case None
  then show ?thesis by (simp add: lower_char_def)
next
  case (Some l)
  then have "(ch, l) \<in> set (zip ascii_uppercase ascii_lowercase)"
    by (rule map_of_SomeD)
  then have "l \<in> set ascii_lowercase"
    by (rule set_zip_rightD)
  moreover have "\<forall>x \<in> set ascii_lowercase. map_of (zip ascii_uppercase ascii_lowercase) x = None"
    by (simp add: ascii_lowercase_def ascii_uppercase_def)
  ultimately have "map_of (zip ascii_uppercase ascii_lowercase) l = None"
    by blast
  with Some show ?thesis by (simp add: lower_char_def)
qed

lemma lower_idem: "lower (lower s) = lower s"
  by (simp add: lower_def lower_char_idem)

lemma lower_append: "lower (a @ b) = lower a @ lower b"
  by (simp add: lower_def)

lemma lower_Nil_iff: "lower s = [] \<longleftrightarrow> s = []"
  by (simp add: lower_def)



section \<open>The build on a well-shaped snapshot\<close>

lemma columns_loop_snapshot:
  "columns_loop sn tn (map PStr cols) c = (None, fold (register_column sn tn) cols c)"
  by (induction cols arbitrary: c) simp_all

lemma tables_loop_snapshot:
  "tables_loop sn (encode_tables ts) c = (None, fold (build_table sn) ts c)"
proof (induction ts arbitrary: c)
  case Nil
  then show ?case by (simp add: encode_tables_def)
next
  case (Cons a ts)
  obtain t cols where a: "a = (t, cols)" by (cases a)
  have "tables_loop sn (encode_tables ((t, cols) # ts)) c
        = tables_loop sn (encode_tables ts) (build_table sn (t, cols) c)"
    by (simp add: encode_tables_def build_table_def py_iter_def columns_loop_snapshot)
  then show ?case using Cons a by simp
qed

lemma schemas_loop_snapshot:
  "schemas_loop (encode_schemas raw) c = (None, build_index raw c)"
  unfolding build_index_def
proof (induction raw arbitrary: c)
  case Nil
  then show ?case by (simp add: encode_schemas_def)
next
  case (Cons a raw)
  obtain s ts where a: "a = (s, ts)" by (cases a)
  have "schemas_loop (encode_schemas ((s, ts) # raw)) c
        = schemas_loop (encode_schemas raw) (build_schema (s, ts) c)"
    using tables_loop_snapshot[of s ts "register_schema s c"]
    by (simp add: encode_schemas_def build_schema_def py_get_def py_items_def)
  then show ?case using Cons a by simp
qed

lemma build_from_raw_data_snapshot:
  "build_from_raw_data (snapshot raw ea) c =
     (None, build_index raw
              ((reset_structures (c\<lparr>exported_at := ea\<rparr>))\<lparr>schemas := PDict (encode_schemas raw)\<rparr>))"
  by (simp add: build_from_raw_data_def snapshot_def py_get_def py_items_def schemas_loop_snapshot)

section \<open>Empty-string context arguments\<close>

text \<open>
  C10. An empty-string schema or table argument is treated exactly as an absent one:
  \<open>table_exists\<close> with schema \<open>""\<close> is the global check, and so are \<open>column_exists\<close> and
  \<open>get_candidates_for_scope\<close> whenever the schema or the table argument is \<open>""\<close>; an
  empty-string context value never scopes the lookup.
\<close>

theorem empty_context_is_absent:
  "table_exists c name (Some []) = table_exists c name None
   \<and> table_exists c name None = (lower name \<in> tables_set c)
   \<and> column_exists c name (Some []) table = column_exists c name None table
   \<and> column_exists c name schema (Some []) = column_exists c name schema None
   \<and> column_exists c name (Some []) table = (lower name \<in> columns_set c)
   \<and> column_exists c name schema (Some []) = (lower name \<in> columns_set c)
   \<and> get_candidates_for_scope c scope (Some []) table = get_candidates_for_scope c scope None table
   \<and> get_candidates_for_scope c scope schema (Some []) = get_candidates_for_scope c scope schema None
   \<and> get_candidates_for_scope c ''table'' (Some []) table = tables_list c
   \<and> get_candidates_for_scope c ''column'' (Some []) table = columns_list c
   \<and> get_candidates_for_scope c ''column'' schema (Some []) = columns_list c"
  by (cases schema; cases table)
     (simp_all add: table_exists_def column_exists_def get_candidates_for_scope_def
        if_truthy_def Let_def)

section \<open>Invariants of the build\<close>

lemma map_of_dict_set: "map_of (dict_set k v d) = (map_of d)(k \<mapsto> v)"
  by (induction d) auto

lemma map_of_dict_modify:
  "map_of (dict_modify f k d) x = (if x = k then map_option f (map_of d k) else map_of d x)"
  by (induction d) (auto simp: dict_modify_def)

lemma set_set_add: "set (set_add x xs) = insert x (set xs)"
  by (auto simp: set_add_def)

lemma distinct_set_add: "distinct xs \<Longrightarrow> distinct (set_add x xs)"
  by (simp add: set_add_def)

lemma inv_schemas_register_schema: "inv_schemas c \<Longrightarrow> inv_schemas (register_schema sn c)"
  by (auto simp: inv_schemas_def register_schema_def Let_def)

lemma inv_schemas_register_table: "inv_schemas (register_table sn tn c) = inv_schemas c"
  by (simp add: inv_schemas_def register_table_def Let_def)

lemma inv_schemas_register_column: "inv_schemas (register_column sn tn cn c) = inv_schemas c"
  by (simp add: inv_schemas_def register_column_def Let_def)

lemma inv_tables_register_schema: "inv_tables (register_schema sn c) = inv_tables c"
  by (simp add: inv_tables_def register_schema_def Let_def)

lemma inv_tables_register_table: "inv_tables c \<Longrightarrow> inv_tables (register_table sn tn c)"
  by (auto simp: inv_tables_def register_table_def Let_def)

lemma inv_tables_register_column: "inv_tables (register_column sn tn cn c) = inv_tables c"
  by (simp add: inv_tables_def register_column_def Let_def)

lemma inv_columns_register_schema: "inv_columns (register_schema sn c) = inv_columns c"
  by (simp add: inv_columns_def register_schema_def Let_def)

lemma inv_columns_register_table: "inv_columns (register_table sn tn c) = inv_columns c"
  by (simp add: inv_columns_def register_table_def Let_def)

lemma inv_columns_register_column: "inv_columns c \<Longrightarrow> inv_columns (register_column sn tn cn c)"
  by (auto simp: inv_columns_def register_column_def Let_def)

lemma scoped_invD1: "scoped_inv d l S \<Longrightarrow> map_of d k = None \<Longrightarrow> l k = None"
  unfolding scoped_inv_def by blast

lemma scoped_invD2:
  "scoped_inv d l S \<Longrightarrow> map_of d k = Some xs
   \<Longrightarrow> set xs \<subseteq> S \<and> distinct xs \<and> (\<exists>ys. l k = Some ys \<and> set ys = set xs)"
  unfolding scoped_inv_def by blast

lemma scoped_invI:
  assumes "\<And>k. map_of d k = None \<Longrightarrow> l k = None"
      and "\<And>k xs. map_of d k = Some xs
             \<Longrightarrow> set xs \<subseteq> S \<and> distinct xs \<and> (\<exists>ys. l k = Some ys \<and> set ys = set xs)"
  shows "scoped_inv d l S"
  unfolding scoped_inv_def using assms by blast

lemma scoped_inv_init:
  assumes "scoped_inv d l S"
  shows "scoped_inv (dict_set k [] d) (l(k \<mapsto> [])) S"
proof (rule scoped_invI)
  fix j
  assume a: "map_of (dict_set k [] d) j = None"
  then have ne: "j \<noteq> k" by (cases "j = k") (simp_all add: map_of_dict_set)
  with a have "map_of d j = None" by (simp add: map_of_dict_set)
  then have "l j = None" by (rule scoped_invD1[OF assms])
  with ne show "(l(k \<mapsto> [])) j = None" by simp
next
  fix j xs
  assume a: "map_of (dict_set k [] d) j = Some xs"
  show "set xs \<subseteq> S \<and> distinct xs \<and> (\<exists>ys. (l(k \<mapsto> [])) j = Some ys \<and> set ys = set xs)"
  proof (cases "j = k")
    case True
    with a show ?thesis by (simp add: map_of_dict_set)
  next
    case False
    with a have "map_of d j = Some xs" by (simp add: map_of_dict_set)
    from scoped_invD2[OF assms this] False show ?thesis by simp
  qed
qed

lemma scoped_inv_add:
  assumes "scoped_inv d l S"
  shows "scoped_inv (dict_modify (set_add x) k d)
           (case l k of Some ys \<Rightarrow> l(k \<mapsto> ys @ [x]) | None \<Rightarrow> l) (insert x S)"
proof (cases "map_of d k")
  case None
  then have lk: "l k = None" by (rule scoped_invD1[OF assms])
  have same: "map_of (dict_modify (set_add x) k d) = map_of d"
    using None by (auto simp: map_of_dict_modify)
  show ?thesis
  proof (rule scoped_invI)
    fix j assume "map_of (dict_modify (set_add x) k d) j = None"
    then show "(case l k of Some ys \<Rightarrow> l(k \<mapsto> ys @ [x]) | None \<Rightarrow> l) j = None"
      using scoped_invD1[OF assms, of j] by (simp add: same lk)
  next
    fix j xs assume "map_of (dict_modify (set_add x) k d) j = Some xs"
    then have "map_of d j = Some xs" by (simp add: same)
    from scoped_invD2[OF assms this]
    show "set xs \<subseteq> insert x S \<and> distinct xs
          \<and> (\<exists>ys. (case l k of Some ys \<Rightarrow> l(k \<mapsto> ys @ [x]) | None \<Rightarrow> l) j = Some ys
                  \<and> set ys = set xs)"
      by (auto simp: lk)
  qed
next
  case (Some ts)
  from scoped_invD2[OF assms Some] obtain ys where
    ts: "set ts \<subseteq> S" "distinct ts" and lk: "l k = Some ys" "set ys = set ts"
    by blast
  show ?thesis
  proof (rule scoped_invI)
    fix j assume a: "map_of (dict_modify (set_add x) k d) j = None"
    then have ne: "j \<noteq> k" using Some by (cases "j = k") (simp_all add: map_of_dict_modify)
    with a have "map_of d j = None" by (simp add: map_of_dict_modify)
    then have "l j = None" by (rule scoped_invD1[OF assms])
    with ne show "(case l k of Some ys \<Rightarrow> l(k \<mapsto> ys @ [x]) | None \<Rightarrow> l) j = None"
      by (simp add: lk)
  next
    fix j xs assume a: "map_of (dict_modify (set_add x) k d) j = Some xs"
    show "set xs \<subseteq> insert x S \<and> distinct xs
          \<and> (\<exists>ys. (case l k of Some ys \<Rightarrow> l(k \<mapsto> ys @ [x]) | None \<Rightarrow> l) j = Some ys
                  \<and> set ys = set xs)"
    proof (cases "j = k")
      case True
      with a Some have "xs = set_add x ts" by (simp add: map_of_dict_modify)
      with True ts lk show ?thesis
        by (auto simp: set_set_add distinct_set_add)
    next
      case False
      with a have "map_of d j = Some xs" by (simp add: map_of_dict_modify)
      from scoped_invD2[OF assms this] False show ?thesis by (auto simp: lk)
    qed
  qed
qed

lemma inv_tables_by_schema_register_schema:
  "inv_tables_by_schema c \<Longrightarrow> inv_tables_by_schema (register_schema sn c)"
  unfolding inv_tables_by_schema_def
  using scoped_inv_init[of "tables_by_schema c" "tables_list_by_schema c" "tables_set c" "lower sn"]
  by (simp add: register_schema_def Let_def)

lemma inv_tables_by_schema_register_table:
  "inv_tables_by_schema c \<Longrightarrow> inv_tables_by_schema (register_table sn tn c)"
  unfolding inv_tables_by_schema_def
  using scoped_inv_add[of "tables_by_schema c" "tables_list_by_schema c" "tables_set c"
          "lower tn" "lower sn"]
  by (simp add: register_table_def Let_def)

lemma inv_tables_by_schema_register_column:
  "inv_tables_by_schema (register_column sn tn cn c) = inv_tables_by_schema c"
  by (simp add: inv_tables_by_schema_def register_column_def Let_def)

lemma inv_columns_by_table_register_schema:
  "inv_columns_by_table (register_schema sn c) = inv_columns_by_table c"
  by (simp add: inv_columns_by_table_def register_schema_def Let_def)

lemma inv_columns_by_table_register_table:
  "inv_columns_by_table c \<Longrightarrow> inv_columns_by_table (register_table sn tn c)"
  unfolding inv_columns_by_table_def
  using scoped_inv_init[of "columns_by_table c" "columns_list_by_table c" "columns_set c"
          "(lower sn, lower tn)"]
  by (simp add: register_table_def Let_def)

lemma inv_columns_by_table_register_column:
  "inv_columns_by_table c \<Longrightarrow> inv_columns_by_table (register_column sn tn cn c)"
  unfolding inv_columns_by_table_def
  using scoped_inv_add[of "columns_by_table c" "columns_list_by_table c" "columns_set c"
          "lower cn" "(lower sn, lower tn)"]
  by (simp add: register_column_def Let_def)

lemma cache_inv_register_schema: "cache_inv c \<Longrightarrow> cache_inv (register_schema sn c)"
  by (simp add: cache_inv_def inv_schemas_register_schema inv_tables_register_schema
        inv_columns_register_schema inv_tables_by_schema_register_schema
        inv_columns_by_table_register_schema)

lemma cache_inv_register_table: "cache_inv c \<Longrightarrow> cache_inv (register_table sn tn c)"
  by (simp add: cache_inv_def inv_schemas_register_table inv_tables_register_table
        inv_columns_register_table inv_tables_by_schema_register_table
        inv_columns_by_table_register_table)

lemma cache_inv_register_column: "cache_inv c \<Longrightarrow> cache_inv (register_column sn tn cn c)"
  by (simp add: cache_inv_def inv_schemas_register_column inv_tables_register_column
        inv_columns_register_column inv_tables_by_schema_register_column
        inv_columns_by_table_register_column)

lemma columns_loop_preserves:
  assumes "\<And>cn c. P c \<Longrightarrow> P (register_column sn tn cn c)"
  shows "P c \<Longrightarrow> columns_loop sn tn vs c = (e, c') \<Longrightarrow> P c'"
proof (induction vs arbitrary: c)
  case Nil
  then show ?case by simp
next
  case (Cons v vs)
  show ?case
  proof (cases v)
    case (PStr cn)
    with Cons.prems(2) have "columns_loop sn tn vs (register_column sn tn cn c) = (e, c')"
      by simp
    with Cons.IH[OF assms[OF Cons.prems(1)]] show ?thesis by simp
  qed (use Cons.prems in simp_all)
qed

lemma tables_loop_preserves:
  assumes "\<And>tn c. P c \<Longrightarrow> P (register_table sn tn c)"
      and "\<And>tn cn c. P c \<Longrightarrow> P (register_column sn tn cn c)"
  shows "P c \<Longrightarrow> tables_loop sn items c = (e, c') \<Longrightarrow> P c'"
proof (induction items arbitrary: c)
  case Nil
  then show ?case by simp
next
  case (Cons a items)
  obtain k cols where a: "a = (k, cols)" by (cases a)
  show ?case
  proof (cases k)
    case (PStr tn)
    have P1: "P (register_table sn tn c)" using Cons.prems(1) assms(1) by simp
    show ?thesis
    proof (cases "py_iter cols")
      case (Inl err)
      then show ?thesis using Cons.prems(2) a PStr P1 by simp
    next
      case (Inr vs)
      obtain e2 c2 where l: "columns_loop sn tn vs (register_table sn tn c) = (e2, c2)"
        by (cases "columns_loop sn tn vs (register_table sn tn c)")
      have P2: "P c2" using columns_loop_preserves[where P = P, OF assms(2) P1 l] .
      show ?thesis
      proof (cases e2)
        case None
        then have "tables_loop sn items c2 = (e, c')"
          using Cons.prems(2) a PStr Inr l by simp
        then show ?thesis using Cons.IH[OF P2] by simp
      next
        case (Some err)
        then have "c' = c2" using Cons.prems(2) a PStr Inr l by simp
        then show ?thesis using P2 by simp
      qed
    qed
  qed (use Cons.prems a in simp_all)
qed

lemma schemas_loop_preserves:
  assumes "\<And>sn c. P c \<Longrightarrow> P (register_schema sn c)"
      and "\<And>sn tn c. P c \<Longrightarrow> P (register_table sn tn c)"
      and "\<And>sn tn cn c. P c \<Longrightarrow> P (register_column sn tn cn c)"
  shows "P c \<Longrightarrow> schemas_loop items c = (e, c') \<Longrightarrow> P c'"
proof (induction items arbitrary: c)
  case Nil
  then show ?case by simp
next
  case (Cons a items)
  obtain k sd where a: "a = (k, sd)" by (cases a)
  show ?case
  proof (cases k)
    case (PStr sn)
    have P1: "P (register_schema sn c)" using Cons.prems(1) assms(1) by simp
    show ?thesis
    proof (cases "py_get sd ''tables'' (PDict [])")
      case (Inl err)
      then show ?thesis using Cons.prems(2) a PStr P1 by simp
    next
      case (Inr td)
      show ?thesis
      proof (cases "py_items td")
        case (Inl err)
        then show ?thesis using Cons.prems(2) a PStr P1 Inr by simp
      next
        case items': (Inr its)
        obtain e2 c2 where l: "tables_loop sn its (register_schema sn c) = (e2, c2)"
          by (cases "tables_loop sn its (register_schema sn c)")
        have P2: "P c2"
          using tables_loop_preserves[where P = P, OF assms(2) assms(3) P1 l] .
        show ?thesis
        proof (cases e2)
          case None
          then have "schemas_loop items c2 = (e, c')"
            using Cons.prems(2) a PStr Inr items' l by simp
          then show ?thesis using Cons.IH[OF P2] by simp
        next
          case (Some err)
          then have "c' = c2" using Cons.prems(2) a PStr Inr items' l by simp
          then show ?thesis using P2 by simp
        qed
      qed
    qed
  qed (use Cons.prems a in simp_all)
qed

lemma cache_inv_start:
  "cache_inv ((reset_structures c)\<lparr>schemas := rs\<rparr>)"
  by (simp add: cache_inv_def inv_schemas_def inv_tables_def inv_columns_def
        inv_tables_by_schema_def inv_columns_by_table_def scoped_inv_def reset_structures_def)

lemma cache_inv_loaded:
  "cache_inv (c\<lparr>loaded_at := t, is_loaded := b\<rparr>) = cache_inv c"
  by (simp add: cache_inv_def inv_schemas_def inv_tables_def inv_columns_def
        inv_tables_by_schema_def inv_columns_by_table_def)

lemma cache_inv_build:
  assumes "build_from_raw_data data c0 = (None, c)"
  shows "cache_inv c"
proof -
  from assms obtain ea rs items where
    items: "py_items rs = Inr items"
    and loop: "schemas_loop items ((reset_structures (c0\<lparr>exported_at := ea\<rparr>))\<lparr>schemas := rs\<rparr>) = (None, c)"
    by (auto simp: build_from_raw_data_def Let_def split: sum.splits)
  show ?thesis
    using schemas_loop_preserves[where P = cache_inv, OF cache_inv_register_schema
        cache_inv_register_table cache_inv_register_column cache_inv_start loop] .
qed

lemma cache_inv_load:
  assumes "load fs now p env c0 = (None, c)"
  shows "cache_inv c"
proof -
  from assms obtain data c1 where
    b: "build_from_raw_data data (c0\<lparr>environment := env\<rparr>) = (None, c1)"
    and c: "c = c1\<lparr>loaded_at := Some now, is_loaded := True\<rparr>"
    by (auto simp: load_def split: option.splits pickle_file.splits prod.splits)
  from cache_inv_build[OF b] show ?thesis by (simp add: c cache_inv_loaded)
qed

section \<open>Existence checks, candidates and original casing\<close>







lemma if_truthy_simps:
  "if_truthy None f d = d"
  "if_truthy (Some []) f d = d"
  "v \<noteq> [] \<Longrightarrow> if_truthy (Some v) f d = f v"
  by (simp_all add: if_truthy_def)






section \<open>The matcher\<close>


lemma process_extract_set:
  assumes "(ch, s, i) \<in> set (process_extract scorer q choices limit cutoff)"
  shows "i < length choices \<and> choices ! i = ch \<and> s = scorer q ch \<and> of_int cutoff \<le> s"
proof -
  from assms have "(ch, s, i) \<in> set (filter (\<lambda>(choice, score, index). of_int cutoff \<le> score)
             (map (\<lambda>(index, choice). (choice, scorer q choice, index)) (enumerate 0 choices)))"
    unfolding process_extract_def by (auto dest: in_set_takeD)
  then show ?thesis by (auto simp: in_set_enumerate_eq)
qed




lemma length_process_extract:
  "length (process_extract scorer q choices limit cutoff) \<le> nat limit"
  by (simp add: process_extract_def)




section \<open>The two stages of validate\<close>






section \<open>Loading a well-shaped snapshot\<close>

lemma load_snapshot:
  assumes "fs p = Some (Pickled (snapshot raw ea))"
  shows "load fs now p env c =
           (None, (build_index raw
                     ((reset_structures (c\<lparr>environment := env, exported_at := ea\<rparr>))
                        \<lparr>schemas := PDict (encode_schemas raw)\<rparr>))
                  \<lparr>loaded_at := Some now, is_loaded := True\<rparr>)"
  using assms by (simp add: load_def build_from_raw_data_snapshot)

lemma load_index_of:
  "load [''metadata_dev.pkl'' \<mapsto> Pickled (snapshot raw PNone)] 0
      ''metadata_dev.pkl'' ''dev'' new_cache = (None, index_of raw)"
  unfolding index_of_def
  by (subst (1 2) load_snapshot[where raw = raw and ea = PNone]) simp_all

section \<open>The two stages of validate on examples\<close>





section \<open>The contract of find_matches\<close>

lemma insort_triple_before:
  assumes "sorted_wrt triple_before zs" "\<forall>z \<in> set zs. snd (snd y) < snd (snd z)"
  shows "sorted_wrt triple_before (insort_key (\<lambda>(choice, score, index). - score) y zs)"
  using assms
proof (induction zs)
  case Nil
  then show ?case by simp
next
  case (Cons z zs)
  show ?case
  proof (cases "fst (snd z) \<le> fst (snd y)")
    case True
    then have ins: "insort_key (\<lambda>(choice, score, index). - score) y (z # zs) = y # z # zs"
      by (simp add: case_prod_beta)
    have "triple_before y w" if "w \<in> set (z # zs)" for w
    proof -
      have "fst (snd w) \<le> fst (snd z)"
        using that Cons.prems(1) by (auto simp: triple_before_def)
      moreover have "snd (snd y) < snd (snd w)" using that Cons.prems(2) by auto
      ultimately show ?thesis using True by (auto simp: triple_before_def)
    qed
    with Cons.prems(1) show ?thesis unfolding ins by auto
  next
    case False
    then have ins: "insort_key (\<lambda>(choice, score, index). - score) y (z # zs)
                    = z # insort_key (\<lambda>(choice, score, index). - score) y zs"
      by (simp add: case_prod_beta)
    have "sorted_wrt triple_before (insort_key (\<lambda>(choice, score, index). - score) y zs)"
      using Cons by simp
    moreover have "triple_before z y" using False by (simp add: triple_before_def)
    ultimately show ?thesis
      unfolding ins using Cons.prems(1) by (auto simp: set_insort_key)
  qed
qed

lemma sort_key_triple_before:
  assumes "sorted_wrt (\<lambda>a b. snd (snd a) < snd (snd b)) ys"
  shows "sorted_wrt triple_before (sort_key (\<lambda>(choice, score, index). - score) ys)"
  using assms
proof (induction ys)
  case Nil
  then show ?case by simp
next
  case (Cons y ys)
  have "sorted_wrt triple_before (sort_key (\<lambda>(choice, score, index). - score) ys)"
    using Cons by simp
  moreover have "\<forall>z \<in> set (sort_key (\<lambda>(choice, score, index). - score) ys).
                   snd (snd y) < snd (snd z)"
    using Cons.prems by simp
  ultimately show ?case by (simp add: insort_triple_before)
qed

lemma scored_indices_increasing:
  "sorted_wrt (\<lambda>a b. snd (snd a) < snd (snd b))
     (map (\<lambda>(index, choice). (choice, f choice, index)) (enumerate n choices))"
proof (induction choices arbitrary: n)
  case Nil
  then show ?case by simp
next
  case (Cons c choices)
  have "\<forall>p \<in> set (enumerate (Suc n) choices). n < fst p"
    by (auto simp: in_set_enumerate_eq)
  then show ?case using Cons[of "Suc n"] by (auto simp: sorted_wrt_map case_prod_beta)
qed

lemma process_extract_sorted:
  "sorted_wrt triple_before (process_extract scorer q choices limit cutoff)"
proof -
  let ?xs = "map (\<lambda>(index, choice). (choice, scorer q choice, index)) (enumerate 0 choices)"
  have "sorted_wrt (\<lambda>a b. snd (snd a) < snd (snd b))
          (filter (\<lambda>(choice, score, index). of_int cutoff \<le> score) ?xs)"
    using scored_indices_increasing by (rule sorted_wrt_filter)
  then have "sorted_wrt triple_before
               (sort_key (\<lambda>(choice, score, index). - score)
                  (filter (\<lambda>(choice, score, index). of_int cutoff \<le> score) ?xs))"
    by (rule sort_key_triple_before)
  then show ?thesis unfolding process_extract_def by (rule sorted_wrt_take)
qed

lemma py_int_mono: "x \<le> y \<Longrightarrow> py_int x \<le> py_int y"
proof -
  assume xy: "x \<le> y"
  consider "0 \<le> x" | "x < 0" "0 \<le> y" | "x < 0" "y < 0" by linarith
  then show ?thesis
  proof cases
    case 1
    with xy show ?thesis by (simp add: py_int_def floor_mono)
  next
    case 2
    then have "\<lceil>x\<rceil> \<le> 0" "0 \<le> \<lfloor>y\<rfloor>" by (simp_all add: ceiling_le_iff)
    then have "\<lceil>x\<rceil> \<le> \<lfloor>y\<rfloor>" by (rule order_trans)
    moreover have "py_int x = \<lceil>x\<rceil>" "py_int y = \<lfloor>y\<rfloor>"
      using 2 by (simp_all add: py_int_def)
    ultimately show ?thesis by (simp only:)
  next
    case 3
    with xy show ?thesis by (simp add: py_int_def ceiling_mono)
  qed
qed

lemma le_py_int: "of_int t \<le> x \<Longrightarrow> t \<le> py_int x"
  by (auto simp: py_int_def le_floor_iff le_ceiling_iff)

lemma find_matches_eq:
  "candidates \<noteq> [] \<Longrightarrow>
   find_matches fm scorer query candidates targ larg =
     map (\<lambda>tr. (fst tr, py_int (fst (snd tr))))
       (process_extract scorer (strip (lower query)) candidates
          (case larg of Some x \<Rightarrow> x | None \<Rightarrow> max_results fm)
          (case targ of Some x \<Rightarrow> x | None \<Rightarrow> threshold fm))"
  by (simp add: find_matches_def Let_def case_prod_beta)

text \<open>
  C3 (as amended). For every query, candidate list, threshold and limit, \<open>find_matches\<close>
  returns a list sorted by descending score, with no entry scoring below the threshold,
  of length at most the limit, and empty when the candidate list is empty. The entries
  are candidates taken in the order of their untruncated scorer scores, equal
  untruncated scores in candidate input order; two entries whose reported integer
  scores are equal only after truncation follow their untruncated scores.
\<close>

theorem find_matches_contract:
  assumes "res = find_matches fm scorer query candidates targ larg"
      and "t = (case targ of Some x \<Rightarrow> x | None \<Rightarrow> threshold fm)"
      and "l = (case larg of Some x \<Rightarrow> x | None \<Rightarrow> max_results fm)"
  shows "sorted_wrt (\<lambda>a b. snd b \<le> snd a) res
         \<and> (\<forall>(n, s) \<in> set res. t \<le> s)
         \<and> length res \<le> nat l
         \<and> (candidates = [] \<longrightarrow> res = [])
         \<and> (\<exists>idxs. res = map (\<lambda>i. (candidates ! i,
                                   py_int (scorer (strip (lower query)) (candidates ! i)))) idxs
                \<and> (\<forall>i \<in> set idxs. i < length candidates)
                \<and> sorted_wrt (ranked_before scorer (strip (lower query)) candidates) idxs)"
proof (cases "candidates = []")
  case True
  then have "res = []" using assms(1) by (simp add: find_matches_def)
  then show ?thesis by simp
next
  case False
  define q where "q = strip (lower query)"
  define pe where "pe = process_extract scorer q candidates l t"
  have res: "res = map (\<lambda>tr. (fst tr, py_int (fst (snd tr)))) pe"
    using find_matches_eq[OF False] assms by (simp add: pe_def q_def)
  have el: "snd (snd tr) < length candidates \<and> candidates ! (snd (snd tr)) = fst tr
            \<and> fst (snd tr) = scorer q (fst tr) \<and> of_int t \<le> fst (snd tr)"
    if "tr \<in> set pe" for tr
    using that process_extract_set[of "fst tr" "fst (snd tr)" "snd (snd tr)" scorer q candidates l t]
    by (simp add: pe_def)
  have srt: "sorted_wrt triple_before pe"
    unfolding pe_def by (rule process_extract_sorted)
  have 1: "sorted_wrt (\<lambda>a b. snd b \<le> snd a) res"
    unfolding res sorted_wrt_map
    by (rule sorted_wrt_mono_rel[OF _ srt]) (auto simp: triple_before_def intro: py_int_mono)
  have 2: "\<forall>(n, s) \<in> set res. t \<le> s"
    unfolding res using el by (auto intro: le_py_int)
  have 3: "length res \<le> nat l"
    unfolding res pe_def by (simp add: length_process_extract)
  define idxs where "idxs = map (\<lambda>tr. snd (snd tr)) pe"
  have 5: "res = map (\<lambda>i. (candidates ! i, py_int (scorer q (candidates ! i)))) idxs"
    unfolding res idxs_def using el by (auto simp: comp_def)
  have 6: "\<forall>i \<in> set idxs. i < length candidates"
    unfolding idxs_def using el by auto
  have 7: "sorted_wrt (ranked_before scorer q candidates) idxs"
    unfolding idxs_def sorted_wrt_map
  proof (rule sorted_wrt_mono_rel[OF _ srt])
    fix a b assume "a \<in> set pe" "b \<in> set pe" "triple_before a b"
    then show "ranked_before scorer q candidates (snd (snd a)) (snd (snd b))"
      using el[of a] el[of b] by (auto simp: triple_before_def ranked_before_def)
  qed
  from 1 2 3 5 6 7 False show ?thesis unfolding q_def by blast
qed

theorem find_matches_contract_witness:
  "find_matches default_matcher indel_ratio ''Studnt '' [''student'', ''course'', ''students'']
     None None = [(''student'', 92), (''students'', 85)]
   \<and> sorted_wrt (\<lambda>a b. snd b \<le> snd a)
        (find_matches default_matcher indel_ratio ''Studnt ''
           [''student'', ''course'', ''students''] None None)
   \<and> length (find_matches default_matcher indel_ratio ''Studnt ''
               [''student'', ''course'', ''students''] None None) \<le> 5"
proof -
  have v: "find_matches default_matcher indel_ratio ''Studnt ''
             [''student'', ''course'', ''students''] None None
           = [(''student'', 92), (''students'', 85)]"
    by code_simp
  have t: "(50::int) = (case None of Some x \<Rightarrow> x | None \<Rightarrow> threshold default_matcher)"
    by (simp add: default_matcher_def)
  have l: "(5::int) = (case None of Some x \<Rightarrow> x | None \<Rightarrow> max_results default_matcher)"
    by (simp add: default_matcher_def)
  from find_matches_contract[OF refl t l, of indel_ratio "''Studnt ''"
         "[''student'', ''course'', ''students'']"] v
  show ?thesis by simp
qed

theorem find_matches_tie_order_counterexample:
  "find_matches default_matcher indel_ratio ''department''
     [''departmant'', ''departmentid''] None None
   = [(''departmentid'', 90), (''departmant'', 90)]"
  by code_simp

section \<open>The outcomes of load\<close>

lemma register_column_loaded:
  "register_column sn tn cn (c\<lparr>loaded_at := a, is_loaded := b\<rparr>)
   = (register_column sn tn cn c)\<lparr>loaded_at := a, is_loaded := b\<rparr>"
  by (rule environment_cache.equality) (simp_all add: register_column_def Let_def split: option.splits)

lemma register_table_loaded:
  "register_table sn tn (c\<lparr>loaded_at := a, is_loaded := b\<rparr>)
   = (register_table sn tn c)\<lparr>loaded_at := a, is_loaded := b\<rparr>"
  by (rule environment_cache.equality) (simp_all add: register_table_def Let_def split: option.splits)

lemma register_schema_loaded:
  "register_schema sn (c\<lparr>loaded_at := a, is_loaded := b\<rparr>)
   = (register_schema sn c)\<lparr>loaded_at := a, is_loaded := b\<rparr>"
  by (rule environment_cache.equality) (simp_all add: register_schema_def Let_def)

lemma columns_loop_loaded:
  "columns_loop sn tn vs (c\<lparr>loaded_at := a, is_loaded := b\<rparr>)
   = apsnd (\<lambda>x. x\<lparr>loaded_at := a, is_loaded := b\<rparr>) (columns_loop sn tn vs c)"
proof (induction vs arbitrary: c)
  case Nil
  then show ?case by simp
next
  case (Cons v vs)
  then show ?case by (cases v) (simp_all add: register_column_loaded)
qed

lemma tables_loop_loaded:
  "tables_loop sn items (c\<lparr>loaded_at := a, is_loaded := b\<rparr>)
   = apsnd (\<lambda>x. x\<lparr>loaded_at := a, is_loaded := b\<rparr>) (tables_loop sn items c)"
proof (induction items arbitrary: c)
  case Nil
  then show ?case by simp
next
  case (Cons it items)
  obtain k cols where it: "it = (k, cols)" by (cases it)
  show ?case
  proof (cases k)
    case (PStr tn)
    show ?thesis
    proof (cases "py_iter cols")
      case (Inl err)
      then show ?thesis by (simp add: it PStr register_table_loaded)
    next
      case (Inr vs)
      obtain e2 c2 where l: "columns_loop sn tn vs (register_table sn tn c) = (e2, c2)"
        by (cases "columns_loop sn tn vs (register_table sn tn c)")
      then have l': "columns_loop sn tn vs ((register_table sn tn c)\<lparr>loaded_at := a, is_loaded := b\<rparr>)
                     = (e2, c2\<lparr>loaded_at := a, is_loaded := b\<rparr>)"
        by (simp add: columns_loop_loaded)
      show ?thesis
        by (cases e2) (simp_all add: it PStr Inr register_table_loaded l l' Cons.IH)
    qed
  qed (simp_all add: it)
qed

lemma schemas_loop_loaded:
  "schemas_loop items (c\<lparr>loaded_at := a, is_loaded := b\<rparr>)
   = apsnd (\<lambda>x. x\<lparr>loaded_at := a, is_loaded := b\<rparr>) (schemas_loop items c)"
proof (induction items arbitrary: c)
  case Nil
  then show ?case by simp
next
  case (Cons it items)
  obtain k sd where it: "it = (k, sd)" by (cases it)
  show ?case
  proof (cases k)
    case (PStr sn)
    show ?thesis
    proof (cases "py_get sd ''tables'' (PDict [])")
      case (Inl err)
      then show ?thesis by (simp add: it PStr register_schema_loaded)
    next
      case (Inr td)
      show ?thesis
      proof (cases "py_items td")
        case (Inl err)
        then show ?thesis by (simp add: it PStr Inr register_schema_loaded)
      next
        case its: (Inr tis)
        obtain e2 c2 where l: "tables_loop sn tis (register_schema sn c) = (e2, c2)"
          by (cases "tables_loop sn tis (register_schema sn c)")
        then have l': "tables_loop sn tis ((register_schema sn c)\<lparr>loaded_at := a, is_loaded := b\<rparr>)
                       = (e2, c2\<lparr>loaded_at := a, is_loaded := b\<rparr>)"
          by (simp add: tables_loop_loaded)
        show ?thesis
          by (cases e2) (simp_all add: it PStr Inr its register_schema_loaded l l' Cons.IH)
      qed
    qed
  qed (simp_all add: it)
qed

lemma start_state_fresh:
  "(reset_structures (c\<lparr>environment := env, exported_at := ea\<rparr>))\<lparr>schemas := rs\<rparr>
   = ((reset_structures (new_cache\<lparr>environment := env, exported_at := ea\<rparr>))\<lparr>schemas := rs\<rparr>)
       \<lparr>loaded_at := loaded_at c, is_loaded := is_loaded c\<rparr>"
  by (rule environment_cache.equality) (simp_all add: reset_structures_def new_cache_def)

lemma loaded_overwrite:
  "(x\<lparr>loaded_at := a, is_loaded := b\<rparr>)\<lparr>loaded_at := a', is_loaded := b'\<rparr>
   = x\<lparr>loaded_at := a', is_loaded := b'\<rparr>"
  by (rule environment_cache.equality) simp_all

lemma load_form:
  assumes "fs p = Some (Pickled data)"
      and "py_get data ''exported_at'' PNone = Inr ea"
      and "py_get data ''schemas'' (PDict []) = Inr rs"
      and "py_items rs = Inr items"
      and "schemas_loop items
             ((reset_structures (new_cache\<lparr>environment := env, exported_at := ea\<rparr>))
                \<lparr>schemas := rs\<rparr>) = (e, x)"
  shows "load fs now p env c =
           (case e of
              None \<Rightarrow> (None, x\<lparr>loaded_at := Some now, is_loaded := True\<rparr>)
            | Some err \<Rightarrow> (Some err, x\<lparr>loaded_at := loaded_at c, is_loaded := is_loaded c\<rparr>))"
proof -
  have "schemas_loop items
          ((reset_structures (c\<lparr>environment := env, exported_at := ea\<rparr>))\<lparr>schemas := rs\<rparr>)
        = (e, x\<lparr>loaded_at := loaded_at c, is_loaded := is_loaded c\<rparr>)"
    by (subst start_state_fresh) (simp add: schemas_loop_loaded assms(5))
  then have "build_from_raw_data data (c\<lparr>environment := env\<rparr>)
             = (e, x\<lparr>loaded_at := loaded_at c, is_loaded := is_loaded c\<rparr>)"
    by (simp add: build_from_raw_data_def assms(2,3,4))
  then show ?thesis
    by (cases e) (simp_all add: load_def assms(1) loaded_overwrite)
qed

lemma load_success_data:
  assumes "fst (load fs now p env c) = None"
  obtains data ea rs items where
    "fs p = Some (Pickled data)" "py_get data ''exported_at'' PNone = Inr ea"
    "py_get data ''schemas'' (PDict []) = Inr rs" "py_items rs = Inr items"
proof -
  from assms obtain data where d: "fs p = Some (Pickled data)"
    by (auto simp: load_def split: option.splits pickle_file.splits)
  with assms have b: "fst (build_from_raw_data data (c\<lparr>environment := env\<rparr>)) = None"
    by (auto simp: load_def split: prod.splits option.splits)
  then obtain ea where ea: "py_get data ''exported_at'' PNone = Inr ea"
    by (cases "py_get data ''exported_at'' PNone") (auto simp: build_from_raw_data_def)
  with b obtain rs where rs: "py_get data ''schemas'' (PDict []) = Inr rs"
    by (cases "py_get data ''schemas'' (PDict [])") (auto simp: build_from_raw_data_def)
  with b ea obtain items where "py_items rs = Inr items"
    by (cases "py_items rs") (auto simp: build_from_raw_data_def)
  with d ea rs show ?thesis using that by blast
qed

lemma load_success_independent:
  assumes "fst (load fs now p env c) = None"
  shows "load fs now p env c = load fs now p env c'"
proof -
  from load_success_data[OF assms] obtain data ea rs items where
    d: "fs p = Some (Pickled data)" "py_get data ''exported_at'' PNone = Inr ea"
       "py_get data ''schemas'' (PDict []) = Inr rs" "py_items rs = Inr items"
    by blast
  obtain e x where l: "schemas_loop items
             ((reset_structures (new_cache\<lparr>environment := env, exported_at := ea\<rparr>))
                \<lparr>schemas := rs\<rparr>) = (e, x)"
    by (cases "schemas_loop items
             ((reset_structures (new_cache\<lparr>environment := env, exported_at := ea\<rparr>))
                \<lparr>schemas := rs\<rparr>)")
  note f = load_form[where fs = fs and p = p, OF d l]
  from assms f[of now c] have "e = None" by (cases e) simp_all
  then show ?thesis using f[of now c] f[of now c'] by simp
qed

lemma load_success_flags:
  assumes "load fs now p env c = (None, c')"
  shows "is_loaded c' \<and> loaded_at c' = Some now \<and> environment c' = env"
proof -
  from assms obtain data c1 where
    b: "build_from_raw_data data (c\<lparr>environment := env\<rparr>) = (None, c1)"
    and c': "c' = c1\<lparr>loaded_at := Some now, is_loaded := True\<rparr>"
    by (auto simp: load_def split: option.splits pickle_file.splits prod.splits)
  from b obtain ea rs items where
    loop: "schemas_loop items
             ((reset_structures (c\<lparr>environment := env, exported_at := ea\<rparr>))\<lparr>schemas := rs\<rparr>)
           = (None, c1)"
    by (auto simp: build_from_raw_data_def Let_def split: sum.splits)
  have "environment c1 = env"
    by (rule schemas_loop_preserves[where P = "\<lambda>x. environment x = env", OF _ _ _ _ loop])
       (simp_all add: register_schema_def register_table_def register_column_def Let_def
          reset_structures_def)
  then show ?thesis by (simp add: c')
qed

text \<open>
  C4 (as amended). \<open>load\<close> fails with \<open>FileNotFoundError\<close> when the file is absent and with
  an unpickling error when it is corrupt, and in both cases leaves the cache as it was.
  On a well-shaped snapshot it succeeds. Whenever it succeeds it fully replaces the
  state: the resulting cache is the one a fresh cache would hold after the same load,
  with \<open>is_loaded\<close> set, \<open>loaded_at\<close> the time of the load and the environment name
  stored. (A value of another shape makes the build raise part-way, after the reset.)
\<close>

theorem load_outcomes:
  "(fs p = None \<longrightarrow> load fs now p env c = (Some FileNotFoundError, c))
   \<and> (fs p = Some Corrupt \<longrightarrow> load fs now p env c = (Some UnpicklingError, c))
   \<and> (fs p = Some (Pickled (snapshot raw ea)) \<longrightarrow> fst (load fs now p env c) = None)
   \<and> (fst (load fs now p env c) = None \<longrightarrow>
        load fs now p env c = load fs now p env new_cache
        \<and> is_loaded (snd (load fs now p env c))
        \<and> loaded_at (snd (load fs now p env c)) = Some now
        \<and> environment (snd (load fs now p env c)) = env)"
proof (intro conjI impI)
  assume "fs p = None"
  then show "load fs now p env c = (Some FileNotFoundError, c)" by (simp add: load_def)
next
  assume "fs p = Some Corrupt"
  then show "load fs now p env c = (Some UnpicklingError, c)" by (simp add: load_def)
next
  assume "fs p = Some (Pickled (snapshot raw ea))"
  then show "fst (load fs now p env c) = None" by (simp add: load_snapshot)
next
  assume s: "fst (load fs now p env c) = None"
  then show "load fs now p env c = load fs now p env new_cache"
    by (rule load_success_independent)
  from s have "load fs now p env c = (None, snd (load fs now p env c))"
    by (metis prod.collapse)
  from load_success_flags[OF this]
  show "is_loaded (snd (load fs now p env c))"
       "loaded_at (snd (load fs now p env c)) = Some now"
       "environment (snd (load fs now p env c)) = env"
    by simp_all
qed

theorem load_outcomes_witness:
  "load Map.empty 7 ''metadata_dev.pkl'' ''dev'' (index_of sample_raw)
     = (Some FileNotFoundError, index_of sample_raw)
   \<and> load corrupt_fs 7 ''metadata_dev.pkl'' ''dev'' (index_of sample_raw)
     = (Some UnpicklingError, index_of sample_raw)
   \<and> fst (load sample_fs 7 ''metadata_dev.pkl'' ''dev'' (index_of unnamed_table_raw)) = None
   \<and> load sample_fs 7 ''metadata_dev.pkl'' ''dev'' (index_of unnamed_table_raw)
     = load sample_fs 7 ''metadata_dev.pkl'' ''dev'' new_cache
   \<and> is_loaded (snd (load sample_fs 7 ''metadata_dev.pkl'' ''dev'' (index_of unnamed_table_raw)))"
proof -
  have a: "Map.empty ''metadata_dev.pkl'' = (None :: pickle_file option)" by simp
  have b: "corrupt_fs ''metadata_dev.pkl'' = Some Corrupt" by (simp add: corrupt_fs_def)
  have c: "sample_fs ''metadata_dev.pkl'' = Some (Pickled (snapshot sample_raw PNone))"
    by (simp add: sample_fs_def)
  note t1 = load_outcomes[where fs = Map.empty and p = "''metadata_dev.pkl''" and now = 7
              and env = "''dev''" and c = "index_of sample_raw"]
  note t2 = load_outcomes[where fs = corrupt_fs and p = "''metadata_dev.pkl''" and now = 7
              and env = "''dev''" and c = "index_of sample_raw"]
  note t3 = load_outcomes[where fs = sample_fs and p = "''metadata_dev.pkl''" and now = 7
              and env = "''dev''" and c = "index_of unnamed_table_raw"
              and raw = sample_raw and ea = PNone]
  from t1 a have 1: "load Map.empty 7 ''metadata_dev.pkl'' ''dev'' (index_of sample_raw)
     = (Some FileNotFoundError, index_of sample_raw)" by blast
  from t2 b have 2: "load corrupt_fs 7 ''metadata_dev.pkl'' ''dev'' (index_of sample_raw)
     = (Some UnpicklingError, index_of sample_raw)" by blast
  from t3 c have 3: "fst (load sample_fs 7 ''metadata_dev.pkl'' ''dev''
                            (index_of unnamed_table_raw)) = None" by blast
  with t3 have 4: "load sample_fs 7 ''metadata_dev.pkl'' ''dev'' (index_of unnamed_table_raw)
     = load sample_fs 7 ''metadata_dev.pkl'' ''dev'' new_cache"
    and 5: "is_loaded (snd (load sample_fs 7 ''metadata_dev.pkl'' ''dev''
                              (index_of unnamed_table_raw)))"
    by blast+
  from 1 2 3 4 5 show ?thesis by (simp only: simp_thms)
qed

theorem load_partial_mutation_counterexample:
  "fst (load malformed_fs 7 ''metadata_dev.pkl'' ''dev'' (index_of sample_raw))
     = Some AttributeError
   \<and> is_loaded (snd (load malformed_fs 7 ''metadata_dev.pkl'' ''dev'' (index_of sample_raw)))
   \<and> schemas_list (index_of sample_raw) = [''public'']
   \<and> schemas_list (snd (load malformed_fs 7 ''metadata_dev.pkl'' ''dev'' (index_of sample_raw)))
     = [''s'']
   \<and> table_exists (index_of sample_raw) ''student'' None
   \<and> \<not> table_exists (snd (load malformed_fs 7 ''metadata_dev.pkl'' ''dev''
                              (index_of sample_raw))) ''student'' None"
proof -
  have "fst (load malformed_fs 7 ''metadata_dev.pkl'' ''dev'' (index_of sample_raw))
     = Some AttributeError"
    by code_simp
  moreover have "is_loaded (snd (load malformed_fs 7 ''metadata_dev.pkl'' ''dev''
                                   (index_of sample_raw)))"
    by code_simp
  moreover have "schemas_list (index_of sample_raw) = [''public'']"
    by code_simp
  moreover have "schemas_list (snd (load malformed_fs 7 ''metadata_dev.pkl'' ''dev''
                                      (index_of sample_raw))) = [''s'']"
    by code_simp
  moreover have "table_exists (index_of sample_raw) ''student'' None"
    by code_simp
  moreover have "\<not> table_exists (snd (load malformed_fs 7 ''metadata_dev.pkl'' ''dev''
                              (index_of sample_raw))) ''student'' None"
    by code_simp
  ultimately show ?thesis by (simp only: simp_thms)
qed

section \<open>The index built from a well-shaped snapshot\<close>

lemma first_casing_find: "first_casing names k = List.find (\<lambda>M. lower M = k) names"
  by (induction names) (auto simp: first_casing_def)

lemma first_casing_append: "first_casing (xs @ ys) = first_casing ys ++ first_casing xs"
  by (simp add: first_casing_def)

lemma first_write:
  "(if m k = None then m(k \<mapsto> v) else m) = [k \<mapsto> v] ++ m"
  by (rule ext) (auto simp: map_add_def split: option.splits)

lemma first_casing_single: "first_casing [n] = [lower n \<mapsto> n]"
  by (simp add: first_casing_def)

text \<open>Innermost loop.\<close>

lemma columns_fold_columns_map:
  "columns_map (fold (register_column sn tn) cols c) = first_casing cols ++ columns_map c"
proof (induction cols arbitrary: c)
  case Nil
  then show ?case by (simp add: first_casing_def)
next
  case (Cons a cols)
  have step: "columns_map (register_column sn tn a c) = first_casing [a] ++ columns_map c"
    by (simp add: register_column_def Let_def first_write first_casing_single)
  have "columns_map (fold (register_column sn tn) (a # cols) c)
        = first_casing cols ++ (first_casing [a] ++ columns_map c)"
    by (simp add: Cons step)
  also have "\<dots> = (first_casing cols ++ first_casing [a]) ++ columns_map c"
    by (simp only: map_add_assoc)
  also have "first_casing cols ++ first_casing [a] = first_casing (a # cols)"
    using first_casing_append[of "[a]" cols] by simp
  finally show ?case .
qed

lemma columns_fold_list_by_table:
  assumes "columns_list_by_table c (lower sn, lower tn) = Some l"
  shows "columns_list_by_table (fold (register_column sn tn) cols c)
         = (columns_list_by_table c)((lower sn, lower tn) \<mapsto> l @ map lower cols)"
  using assms
proof (induction cols arbitrary: c l)
  case Nil
  then show ?case by (auto simp: fun_upd_idem)
next
  case (Cons a cols)
  have step: "columns_list_by_table (register_column sn tn a c)
              = (columns_list_by_table c)((lower sn, lower tn) \<mapsto> l @ [lower a])"
    using Cons.prems by (simp add: register_column_def Let_def)
  then have "columns_list_by_table (register_column sn tn a c) (lower sn, lower tn)
             = Some (l @ [lower a])"
    by simp
  from Cons.IH[OF this] show ?case by (auto simp: step fun_eq_iff)
qed

lemma columns_fold_frame:
  "tables_map (fold (register_column sn tn) cols c) = tables_map c"
  "schemas_map (fold (register_column sn tn) cols c) = schemas_map c"
  "schemas_list (fold (register_column sn tn) cols c) = schemas_list c"
  "tables_list_by_schema (fold (register_column sn tn) cols c) = tables_list_by_schema c"
  by (induction cols arbitrary: c) (simp_all add: register_column_def Let_def)

text \<open>One table.\<close>

lemma build_table_columns_map:
  "columns_map (build_table sn (tn, cols) c) = first_casing cols ++ columns_map c"
  by (simp add: build_table_def columns_fold_columns_map register_table_def Let_def)

lemma build_table_tables_map:
  "tables_map (build_table sn (tn, cols) c) = first_casing [tn] ++ tables_map c"
  by (simp add: build_table_def columns_fold_frame register_table_def Let_def first_write
        first_casing_single)

lemma build_table_list_by_table:
  "columns_list_by_table (build_table sn (tn, cols) c)
   = (columns_list_by_table c)((lower sn, lower tn) \<mapsto> map lower cols)"
proof -
  have "columns_list_by_table (register_table sn tn c) (lower sn, lower tn) = Some []"
    by (simp add: register_table_def Let_def)
  from columns_fold_list_by_table[OF this, of cols]
  show ?thesis by (simp add: build_table_def register_table_def Let_def)
qed

lemma build_table_frame:
  "schemas_map (build_table sn (tn, cols) c) = schemas_map c"
  "schemas_list (build_table sn (tn, cols) c) = schemas_list c"
  "dom (tables_list_by_schema (build_table sn (tn, cols) c)) = dom (tables_list_by_schema c)"
  by (auto simp: build_table_def columns_fold_frame register_table_def Let_def
           split: option.splits if_splits)

text \<open>The tables of one schema.\<close>

lemma tables_fold_columns_map:
  "columns_map (fold (build_table sn) ts c)
   = first_casing (concat (map snd ts)) ++ columns_map c"
proof (induction ts arbitrary: c)
  case Nil
  then show ?case by (simp add: first_casing_def)
next
  case (Cons a ts)
  obtain tn cols where a: "a = (tn, cols)" by (cases a)
  have "columns_map (fold (build_table sn) (a # ts) c)
        = first_casing (concat (map snd ts)) ++ (first_casing cols ++ columns_map c)"
    by (simp add: Cons a build_table_columns_map)
  also have "\<dots> = (first_casing (concat (map snd ts)) ++ first_casing cols) ++ columns_map c"
    by (simp only: map_add_assoc)
  also have "first_casing (concat (map snd ts)) ++ first_casing cols
             = first_casing (concat (map snd (a # ts)))"
    by (simp add: a first_casing_append)
  finally show ?case .
qed

lemma tables_fold_tables_map:
  "tables_map (fold (build_table sn) ts c) = first_casing (map fst ts) ++ tables_map c"
proof (induction ts arbitrary: c)
  case Nil
  then show ?case by (simp add: first_casing_def)
next
  case (Cons a ts)
  obtain tn cols where a: "a = (tn, cols)" by (cases a)
  have "tables_map (fold (build_table sn) (a # ts) c)
        = first_casing (map fst ts) ++ (first_casing [tn] ++ tables_map c)"
    by (simp add: Cons a build_table_tables_map)
  also have "\<dots> = (first_casing (map fst ts) ++ first_casing [tn]) ++ tables_map c"
    by (simp only: map_add_assoc)
  also have "first_casing (map fst ts) ++ first_casing [tn] = first_casing (map fst (a # ts))"
    using first_casing_append[of "[tn]" "map fst ts"] by (simp add: a)
  finally show ?case .
qed

lemma tables_fold_list_by_table:
  "columns_list_by_table (fold (build_table sn) ts c)
   = columns_list_by_table c
     ++ map_of (rev (map (\<lambda>(t, cols). ((lower sn, lower t), map lower cols)) ts))"
proof (induction ts arbitrary: c)
  case Nil
  then show ?case by simp
next
  case (Cons a ts)
  obtain tn cols where a: "a = (tn, cols)" by (cases a)
  let ?g = "\<lambda>(t, cols). ((lower sn, lower t), map lower cols)"
  have "columns_list_by_table (fold (build_table sn) (a # ts) c)
        = columns_list_by_table (build_table sn (tn, cols) c) ++ map_of (rev (map ?g ts))"
    using Cons[of "build_table sn (tn, cols) c"] by (simp add: a)
  also have "\<dots> = columns_list_by_table c ++ map_of (rev (map ?g (a # ts)))"
    unfolding build_table_list_by_table
    by (rule ext) (auto simp: map_add_def a split: option.splits)
  finally show ?case .
qed

lemma tables_fold_frame:
  "schemas_map (fold (build_table sn) ts c) = schemas_map c"
  "schemas_list (fold (build_table sn) ts c) = schemas_list c"
  "dom (tables_list_by_schema (fold (build_table sn) ts c)) = dom (tables_list_by_schema c)"
proof (induction ts arbitrary: c)
  case Nil
  { case 1 show ?case by simp }
  { case 2 show ?case by simp }
  { case 3 show ?case by simp }
next
  case (Cons a ts)
  obtain tn cols where a: "a = (tn, cols)" by (cases a)
  { case 1 show ?case by (simp add: Cons.IH(1) a build_table_frame) }
  { case 2 show ?case by (simp add: Cons.IH(2) a build_table_frame) }
  { case 3 show ?case by (simp add: Cons.IH(3) a build_table_frame) }
qed

text \<open>One schema.\<close>

lemma build_schema_maps:
  "tables_map (build_schema (sn, ts) c) = first_casing (map fst ts) ++ tables_map c"
  "columns_map (build_schema (sn, ts) c) = first_casing (concat (map snd ts)) ++ columns_map c"
  "columns_list_by_table (build_schema (sn, ts) c)
   = columns_list_by_table c
     ++ map_of (rev (map (\<lambda>(t, cols). ((lower sn, lower t), map lower cols)) ts))"
  "schemas_map (build_schema (sn, ts) c) = (schemas_map c)(lower sn \<mapsto> sn)"
  "schemas_list (build_schema (sn, ts) c) = schemas_list c @ [lower sn]"
  "dom (tables_list_by_schema (build_schema (sn, ts) c))
   = insert (lower sn) (dom (tables_list_by_schema c))"
  by (simp_all add: build_schema_def tables_fold_tables_map tables_fold_columns_map
        tables_fold_list_by_table tables_fold_frame register_schema_def Let_def)

lemma table_entries_Cons:
  "table_entries ((sn, ts) # raw) = map (\<lambda>(t, cols). (sn, t, cols)) ts @ table_entries raw"
  by (simp add: table_entries_def)

lemma table_names_Cons: "table_names ((sn, ts) # raw) = map fst ts @ table_names raw"
  by (simp add: table_names_def table_entries_Cons case_prod_beta comp_def)

lemma column_names_Cons:
  "column_names ((sn, ts) # raw) = concat (map snd ts) @ column_names raw"
  by (simp add: column_names_def table_entries_Cons case_prod_beta comp_def)

lemma keyed_entries_Cons:
  "map (\<lambda>(s, t, cols). ((lower s, lower t), f cols)) (table_entries ((sn, ts) # raw))
   = map (\<lambda>(t, cols). ((lower sn, lower t), f cols)) ts
     @ map (\<lambda>(s, t, cols). ((lower s, lower t), f cols)) (table_entries raw)"
  by (simp add: table_entries_Cons case_prod_beta comp_def)

text \<open>All schemas.\<close>

lemma build_index_tables_map:
  "tables_map (build_index raw c) = first_casing (table_names raw) ++ tables_map c"
  unfolding build_index_def
proof (induction raw arbitrary: c)
  case Nil
  then show ?case by (simp add: first_casing_def table_names_def table_entries_def)
next
  case (Cons a raw)
  obtain sn ts where a: "a = (sn, ts)" by (cases a)
  have "tables_map (fold build_schema (a # raw) c)
        = first_casing (table_names raw) ++ (first_casing (map fst ts) ++ tables_map c)"
    by (simp add: Cons a build_schema_maps)
  also have "\<dots> = (first_casing (table_names raw) ++ first_casing (map fst ts)) ++ tables_map c"
    by (simp only: map_add_assoc)
  also have "first_casing (table_names raw) ++ first_casing (map fst ts)
             = first_casing (table_names (a # raw))"
    by (simp add: a table_names_Cons first_casing_append)
  finally show ?case .
qed

lemma build_index_columns_map:
  "columns_map (build_index raw c) = first_casing (column_names raw) ++ columns_map c"
  unfolding build_index_def
proof (induction raw arbitrary: c)
  case Nil
  then show ?case by (simp add: first_casing_def column_names_def table_entries_def)
next
  case (Cons a raw)
  obtain sn ts where a: "a = (sn, ts)" by (cases a)
  have "columns_map (fold build_schema (a # raw) c)
        = first_casing (column_names raw)
          ++ (first_casing (concat (map snd ts)) ++ columns_map c)"
    by (simp add: Cons a build_schema_maps)
  also have "\<dots> = (first_casing (column_names raw) ++ first_casing (concat (map snd ts)))
                   ++ columns_map c"
    by (simp only: map_add_assoc)
  also have "first_casing (column_names raw) ++ first_casing (concat (map snd ts))
             = first_casing (column_names (a # raw))"
    by (simp add: a column_names_Cons first_casing_append)
  finally show ?case .
qed

lemma build_index_list_by_table:
  "columns_list_by_table (build_index raw c)
   = columns_list_by_table c
     ++ map_of (rev (map (\<lambda>(s, t, cols). ((lower s, lower t), map lower cols))
                       (table_entries raw)))"
  unfolding build_index_def
proof (induction raw arbitrary: c)
  case Nil
  then show ?case by (simp add: table_entries_def)
next
  case (Cons a raw)
  obtain sn ts where a: "a = (sn, ts)" by (cases a)
  let ?G = "\<lambda>(s, t, cols). ((lower s, lower t), map lower cols)"
  let ?g = "\<lambda>(t, cols). ((lower sn, lower t), map lower cols)"
  have "columns_list_by_table (fold build_schema (a # raw) c)
        = columns_list_by_table (build_schema (sn, ts) c)
          ++ map_of (rev (map ?G (table_entries raw)))"
    using Cons[of "build_schema (sn, ts) c"] by (simp add: a)
  also have "\<dots> = (columns_list_by_table c ++ map_of (rev (map ?g ts)))
                   ++ map_of (rev (map ?G (table_entries raw)))"
    by (simp only: build_schema_maps)
  also have "\<dots> = columns_list_by_table c
                   ++ (map_of (rev (map ?g ts)) ++ map_of (rev (map ?G (table_entries raw))))"
    by (simp only: map_add_assoc)
  also have "map_of (rev (map ?g ts)) ++ map_of (rev (map ?G (table_entries raw)))
             = map_of (rev (map ?G (table_entries (a # raw))))"
    unfolding a keyed_entries_Cons[where f = "map lower"] rev_append map_of_append ..
  finally show ?case .
qed

lemma build_index_schemas:
  "schemas_map (build_index raw c)
   = schemas_map c ++ map_of (rev (map (\<lambda>n. (lower n, n)) (schema_names raw)))"
  "schemas_list (build_index raw c) = schemas_list c @ map lower (schema_names raw)"
  "dom (tables_list_by_schema (build_index raw c))
   = dom (tables_list_by_schema c) \<union> lower ` set (schema_names raw)"
  unfolding build_index_def
proof (induction raw arbitrary: c)
  case Nil
  { case 1 show ?case by (simp add: schema_names_def) }
  { case 2 show ?case by (simp add: schema_names_def) }
  { case 3 show ?case by (simp add: schema_names_def) }
next
  case (Cons a raw)
  obtain sn ts where a: "a = (sn, ts)" by (cases a)
  { case 1
    have "schemas_map (fold build_schema (a # raw) c)
          = schemas_map (build_schema (sn, ts) c)
            ++ map_of (rev (map (\<lambda>n. (lower n, n)) (schema_names raw)))"
      using Cons.IH(1)[of "build_schema (sn, ts) c"] by (simp only: a fold_simps)
    also have "\<dots> = schemas_map c
                     ++ map_of (rev (map (\<lambda>n. (lower n, n)) (schema_names (a # raw))))"
      unfolding build_schema_maps
      by (rule ext) (auto simp: map_add_def a schema_names_def split: option.splits)
    finally show ?case . }
  { case 2
    show ?case
      using Cons.IH(2)[of "build_schema (sn, ts) c"]
      by (simp add: a build_schema_maps schema_names_def) }
  { case 3
    show ?case
      using Cons.IH(3)[of "build_schema (sn, ts) c"]
      by (auto simp: a build_schema_maps schema_names_def) }
qed

lemma map_of_unique:
  assumes "(k, v) \<in> set ps" "\<forall>v'. (k, v') \<in> set ps \<longrightarrow> v' = v"
  shows "map_of ps k = Some v"
proof -
  from weak_map_of_SomeI[OF assms(1)] obtain x where x: "map_of ps k = Some x" by blast
  from map_of_SomeD[OF x] assms(2) have "x = v" by blast
  with x show ?thesis by simp
qed

lemma find_unique:
  assumes "N \<in> set names" "\<forall>M \<in> set names. lower M = lower N \<longrightarrow> M = N"
  shows "List.find (\<lambda>M. lower M = lower N) names = Some N"
proof -
  have "map_of (map (\<lambda>n. (lower n, n)) names) (lower N) = Some N"
    using assms by (intro map_of_unique) auto
  then show ?thesis by (simp add: first_casing_find[symmetric] first_casing_def)
qed

lemma loaded_fields:
  assumes "fs p = Some (Pickled (snapshot raw ea))"
      and "load fs now p env c0 = (e, c)"
  shows "e = None"
    and "tables_map c = first_casing (table_names raw)"
    and "columns_map c = first_casing (column_names raw)"
    and "columns_list_by_table c
         = map_of (rev (map (\<lambda>(s, t, cols). ((lower s, lower t), map lower cols))
                          (table_entries raw)))"
    and "schemas_map c = map_of (rev (map (\<lambda>n. (lower n, n)) (schema_names raw)))"
    and "schemas_list c = map lower (schema_names raw)"
    and "dom (tables_list_by_schema c) = lower ` set (schema_names raw)"
    and "cache_inv c"
proof -
  from assms(2) have e: "e = None"
    and c: "c = (build_index raw
                  ((reset_structures (c0\<lparr>environment := env, exported_at := ea\<rparr>))
                     \<lparr>schemas := PDict (encode_schemas raw)\<rparr>))
                \<lparr>loaded_at := Some now, is_loaded := True\<rparr>"
    unfolding load_snapshot[where fs = fs and p = p, OF assms(1)] by simp_all
  show "e = None" by (rule e)
  show "tables_map c = first_casing (table_names raw)"
    unfolding c by (simp add: build_index_tables_map reset_structures_def)
  show "columns_map c = first_casing (column_names raw)"
    unfolding c by (simp add: build_index_columns_map reset_structures_def)
  show "columns_list_by_table c
         = map_of (rev (map (\<lambda>(s, t, cols). ((lower s, lower t), map lower cols))
                          (table_entries raw)))"
    unfolding c by (simp add: build_index_list_by_table reset_structures_def)
  show "schemas_map c = map_of (rev (map (\<lambda>n. (lower n, n)) (schema_names raw)))"
    unfolding c by (simp add: build_index_schemas reset_structures_def)
  show "schemas_list c = map lower (schema_names raw)"
    unfolding c by (simp add: build_index_schemas reset_structures_def)
  show "dom (tables_list_by_schema c) = lower ` set (schema_names raw)"
    unfolding c by (simp add: build_index_schemas reset_structures_def)
  show "cache_inv c" using assms(2) e cache_inv_load by blast
qed

lemma schemas_map_last_casing:
  assumes "fs p = Some (Pickled (snapshot raw ea))"
      and "load fs now p env c0 = (e, c)"
  shows "schemas_map c k = List.find (\<lambda>M. lower M = k) (rev (schema_names raw))"
proof -
  have "schemas_map c = first_casing (rev (schema_names raw))"
    unfolding loaded_fields(5)[where fs = fs and p = p, OF assms] first_casing_def rev_map ..
  then show ?thesis by (simp add: first_casing_find)
qed

lemma list_by_table_last_declared:
  "map_of (rev (map (\<lambda>(s, t, cols). ((lower s, lower t), map lower cols)) entries)) key
   = map_option (map lower)
       (map_of (rev (map (\<lambda>(s, t, cols). ((lower s, lower t), cols)) entries)) key)"
proof -
  have "rev (map (\<lambda>(s, t, cols). ((lower s, lower t), map lower cols)) entries)
        = map (\<lambda>(k, v). (k, map lower v))
            (rev (map (\<lambda>(s, t, cols). ((lower s, lower t), cols)) entries))"
    by (simp add: rev_map case_prod_beta comp_def)
  then show ?thesis by (simp only: map_of_map comp_def)
qed

section \<open>Original casing\<close>

text \<open>
  C5 (as amended). On the index loaded from a well-shaped snapshot, the original casing
  returned for a normalized table name or column name is the FIRST name of the snapshot,
  in iteration order, that lowercases to it; for a normalized schema name it is the LAST
  such schema name. Hence for every name N of the snapshot at the level of the scope,
  provided no other name at that level lowercases to the same string,
  \<open>get_original_for_scope\<close> of the lowercased N returns exactly N.
\<close>

theorem original_casing_first_wins:
  assumes "fs p = Some (Pickled (snapshot raw ea))"
      and "load fs now p env c0 = (e, c)"
  shows "get_original_table c k = List.find (\<lambda>M. lower M = k) (table_names raw)
         \<and> get_original_schema c k = List.find (\<lambda>M. lower M = k) (rev (schema_names raw))
         \<and> get_original_column c k = List.find (\<lambda>M. lower M = k) (column_names raw)
         \<and> (N \<in> set (names_at scope raw)
              \<and> (\<forall>M \<in> set (names_at scope raw). lower M = lower N \<longrightarrow> M = N)
             \<longrightarrow> get_original_for_scope c scope (lower N) = Some N)"
proof (intro conjI impI)
  note f = loaded_fields[where fs = fs and p = p, OF assms]
  show t: "get_original_table c k = List.find (\<lambda>M. lower M = k) (table_names raw)" for k
    by (simp add: get_original_table_def f(2) first_casing_find)
  show "get_original_schema c k = List.find (\<lambda>M. lower M = k) (rev (schema_names raw))"
    unfolding get_original_schema_def
    by (rule schemas_map_last_casing[where fs = fs and p = p, OF assms])
  show cl: "get_original_column c k = List.find (\<lambda>M. lower M = k) (column_names raw)" for k
    by (simp add: get_original_column_def f(3) first_casing_find)
  assume a: "N \<in> set (names_at scope raw)
             \<and> (\<forall>M \<in> set (names_at scope raw). lower M = lower N \<longrightarrow> M = N)"
  then consider "scope = ''schema''" | "scope = ''table''" | "scope = ''column''"
    by (auto simp: names_at_def split: if_splits)
  then show "get_original_for_scope c scope (lower N) = Some N"
  proof cases
    case 1
    with a have n: "N \<in> set (schema_names raw)"
      "\<forall>M \<in> set (schema_names raw). lower M = lower N \<longrightarrow> M = N"
      by (simp_all add: names_at_def)
    have "map_of (rev (map (\<lambda>n. (lower n, n)) (schema_names raw))) (lower N) = Some N"
      using n by (intro map_of_unique) auto
    with 1 show ?thesis
      by (simp add: get_original_for_scope_def get_original_schema_def f(5))
  next
    case 2
    with a have n: "N \<in> set (table_names raw)"
      "\<forall>M \<in> set (table_names raw). lower M = lower N \<longrightarrow> M = N"
      by (simp_all add: names_at_def)
    from find_unique[OF n] 2 show ?thesis
      by (simp add: get_original_for_scope_def t)
  next
    case 3
    with a have n: "N \<in> set (column_names raw)"
      "\<forall>M \<in> set (column_names raw). lower M = lower N \<longrightarrow> M = N"
      by (simp_all add: names_at_def)
    from find_unique[OF n] 3 show ?thesis
      by (simp add: get_original_for_scope_def cl)
  qed
qed

section \<open>A table declared twice\<close>

text \<open>
  C7 (as amended). On the index loaded from a well-shaped snapshot, the per-(schema, table)
  column list of a normalized key is the lowercased column list of the LAST table entry of
  the snapshot with that key, and the per-(schema, table) column set holds the same names:
  a later entry with the same normalized schema and table names replaces the columns of
  the earlier one instead of extending them. Only the global column set accumulates the
  columns of every entry.
\<close>

theorem redeclared_table_replaces:
  assumes "fs p = Some (Pickled (snapshot raw ea))"
      and "load fs now p env c0 = (e, c)"
  shows "columns_list_by_table c key = map_option (map lower) (last_declared raw key)
         \<and> (\<forall>cs. map_of (columns_by_table c) key = Some cs \<longrightarrow>
                (\<exists>cols. last_declared raw key = Some cols \<and> set cs = set (map lower cols)))
         \<and> (\<forall>(s, t, cols) \<in> set (table_entries raw). set (map lower cols) \<subseteq> columns_set c)"
proof (intro conjI allI impI)
  note f = loaded_fields[where fs = fs and p = p, OF assms]
  show l: "columns_list_by_table c key = map_option (map lower) (last_declared raw key)"
    unfolding f(4) last_declared_def by (rule list_by_table_last_declared)
  have inv: "scoped_inv (columns_by_table c) (columns_list_by_table c) (columns_set c)"
    using f(8) by (simp add: cache_inv_def inv_columns_by_table_def)
  { fix cs assume "map_of (columns_by_table c) key = Some cs"
    from scoped_invD2[OF inv this] obtain ys where
      "columns_list_by_table c key = Some ys" "set ys = set cs" by blast
    with l show "\<exists>cols. last_declared raw key = Some cols \<and> set cs = set (map lower cols)"
      by (cases "last_declared raw key") auto }
  have dom: "dom (columns_map c) = columns_set c"
    using f(8) by (simp add: cache_inv_def inv_columns_def)
  show "\<forall>(s, t, cols) \<in> set (table_entries raw). set (map lower cols) \<subseteq> columns_set c"
  proof (clarify)
    fix s t cols x assume en: "(s, t, cols) \<in> set (table_entries raw)" and x: "x \<in> set (map lower cols)"
    then obtain col where col: "col \<in> set cols" "x = lower col" by auto
    with en have "col \<in> set (column_names raw)" by (auto simp: column_names_def)
    then have "(lower col, col) \<in> set (map (\<lambda>n. (lower n, n)) (column_names raw))" by auto
    from weak_map_of_SomeI[OF this] have "lower col \<in> dom (columns_map c)"
      by (auto simp: f(3) first_casing_def)
    with dom col show "x \<in> columns_set c" by simp
  qed
qed

section \<open>Column candidates of a table\<close>

text \<open>
  C6 (as amended). On the index loaded from a well-shaped snapshot, for every table entry
  with non-empty schema and table names whose normalized (schema, table) key is declared
  once, the column candidate list of that pair is the lowercased raw column list, in
  order and with its repetitions: the list is not deduplicated. A column exists under the
  pair exactly when its lowercased name is in that list, and each name is a candidate
  exactly once when the lowercased raw names are distinct.
\<close>

theorem column_candidates_roundtrip:
  assumes "fs p = Some (Pickled (snapshot raw ea))"
      and "load fs now p env c0 = (e, c)"
      and "(s, t, cols) \<in> set (table_entries raw)"
      and "s \<noteq> []" and "t \<noteq> []"
      and "\<forall>(s', t', cols') \<in> set (table_entries raw).
             lower s' = lower s \<and> lower t' = lower t \<longrightarrow> cols' = cols"
  shows "get_candidates_for_scope c ''column'' (Some s) (Some t) = map lower cols
         \<and> (\<forall>x. column_exists c x (Some s) (Some t) \<longleftrightarrow> lower x \<in> set (map lower cols))
         \<and> (distinct (map lower cols)
              \<longrightarrow> distinct (get_candidates_for_scope c ''column'' (Some s) (Some t)))"
proof -
  note f = loaded_fields[where fs = fs and p = p, OF assms(1,2)]
  let ?ps = "map (\<lambda>(s, t, cols). ((lower s, lower t), map lower cols)) (table_entries raw)"
  have "map_of (rev ?ps) (lower s, lower t) = Some (map lower cols)"
  proof (rule map_of_unique)
    show "((lower s, lower t), map lower cols) \<in> set (rev ?ps)"
      using assms(3) by force
    show "\<forall>v'. ((lower s, lower t), v') \<in> set (rev ?ps) \<longrightarrow> v' = map lower cols"
      using assms(6) by auto
  qed
  then have l: "columns_list_by_table c (lower s, lower t) = Some (map lower cols)"
    by (simp add: f(4))
  have inv: "scoped_inv (columns_by_table c) (columns_list_by_table c) (columns_set c)"
    using f(8) by (simp add: cache_inv_def inv_columns_by_table_def)
  from scoped_invD1[OF inv, of "(lower s, lower t)"] l
  obtain cs where cs: "map_of (columns_by_table c) (lower s, lower t) = Some cs"
    by (cases "map_of (columns_by_table c) (lower s, lower t)") auto
  from scoped_invD2[OF inv cs] l have set: "set cs = set (map lower cols)" by auto
  have 1: "get_candidates_for_scope c ''column'' (Some s) (Some t) = map lower cols"
    using assms(4,5) l by (simp add: get_candidates_for_scope_def if_truthy_def)
  have 2: "column_exists c x (Some s) (Some t) \<longleftrightarrow> lower x \<in> set (map lower cols)" for x
    using assms(4,5) cs set by (simp add: column_exists_def if_truthy_def Let_def)
  from 1 2 show ?thesis by simp
qed

section \<open>Invariants of the built index\<close>

text \<open>
  C9 (as amended). On the index loaded from a well-shaped snapshot: each global list holds
  the same names as its set, which is the domain of its casing map; each per-schema table
  list and per-table column list is defined exactly when the set of the same key is, with
  the same names; \<open>tables_list\<close> and \<open>columns_list\<close> have no duplicates, and \<open>schemas_list\<close>
  has none provided the lowercased schema names are distinct; the casing maps of tables
  and columns hold the first name written for a key, the casing map of schemas the last;
  and the per-schema structures are defined for every schema of the snapshot, the
  per-table structures for every (schema, table) entry.
\<close>

theorem build_invariants:
  assumes "fs p = Some (Pickled (snapshot raw ea))"
      and "load fs now p env c0 = (e, c)"
  shows "set (schemas_list c) = schemas_set c \<and> dom (schemas_map c) = schemas_set c
         \<and> set (tables_list c) = tables_set c \<and> dom (tables_map c) = tables_set c
         \<and> set (columns_list c) = columns_set c \<and> dom (columns_map c) = columns_set c
         \<and> (\<forall>s ts. map_of (tables_by_schema c) s = Some ts \<longrightarrow>
               (\<exists>l. tables_list_by_schema c s = Some l \<and> set l = set ts))
         \<and> (\<forall>s l. tables_list_by_schema c s = Some l \<longrightarrow>
               (\<exists>ts. map_of (tables_by_schema c) s = Some ts \<and> set ts = set l))
         \<and> (\<forall>k cs. map_of (columns_by_table c) k = Some cs \<longrightarrow>
               (\<exists>l. columns_list_by_table c k = Some l \<and> set l = set cs))
         \<and> (\<forall>k l. columns_list_by_table c k = Some l \<longrightarrow>
               (\<exists>cs. map_of (columns_by_table c) k = Some cs \<and> set cs = set l))
         \<and> distinct (tables_list c) \<and> distinct (columns_list c)
         \<and> (distinct (map lower (schema_names raw)) \<longrightarrow> distinct (schemas_list c))
         \<and> tables_map c k = List.find (\<lambda>M. lower M = k) (table_names raw)
         \<and> columns_map c k = List.find (\<lambda>M. lower M = k) (column_names raw)
         \<and> schemas_map c k = List.find (\<lambda>M. lower M = k) (rev (schema_names raw))
         \<and> (\<forall>s \<in> set (schema_names raw).
               map_of (tables_by_schema c) (lower s) \<noteq> None
               \<and> tables_list_by_schema c (lower s) \<noteq> None)
         \<and> (\<forall>(s, t, cols) \<in> set (table_entries raw).
               map_of (columns_by_table c) (lower s, lower t) \<noteq> None
               \<and> columns_list_by_table c (lower s, lower t) \<noteq> None)"
proof -
  note f = loaded_fields[where fs = fs and p = p, OF assms]
  have g: "inv_schemas c" "inv_tables c" "inv_columns c"
    and it: "scoped_inv (tables_by_schema c) (tables_list_by_schema c) (tables_set c)"
    and ic: "scoped_inv (columns_by_table c) (columns_list_by_table c) (columns_set c)"
    using f(8) by (simp_all add: cache_inv_def inv_tables_by_schema_def inv_columns_by_table_def)
  have 1: "set (schemas_list c) = schemas_set c \<and> dom (schemas_map c) = schemas_set c"
    using g(1) by (simp add: inv_schemas_def)
  have 2: "set (tables_list c) = tables_set c \<and> dom (tables_map c) = tables_set c
           \<and> distinct (tables_list c)"
    using g(2) by (simp add: inv_tables_def)
  have 3: "set (columns_list c) = columns_set c \<and> dom (columns_map c) = columns_set c
           \<and> distinct (columns_list c)"
    using g(3) by (simp add: inv_columns_def)
  have 4: "\<forall>s ts. map_of (tables_by_schema c) s = Some ts \<longrightarrow>
               (\<exists>l. tables_list_by_schema c s = Some l \<and> set l = set ts)"
    using scoped_invD2[OF it] by blast
  have 5: "\<forall>s l. tables_list_by_schema c s = Some l \<longrightarrow>
               (\<exists>ts. map_of (tables_by_schema c) s = Some ts \<and> set ts = set l)"
  proof (intro allI impI)
    fix s l assume l: "tables_list_by_schema c s = Some l"
    with scoped_invD1[OF it, of s] obtain ts where ts: "map_of (tables_by_schema c) s = Some ts"
      by (cases "map_of (tables_by_schema c) s") auto
    from scoped_invD2[OF it ts] l ts
    show "\<exists>ts. map_of (tables_by_schema c) s = Some ts \<and> set ts = set l" by auto
  qed
  have 6: "\<forall>k cs. map_of (columns_by_table c) k = Some cs \<longrightarrow>
               (\<exists>l. columns_list_by_table c k = Some l \<and> set l = set cs)"
    using scoped_invD2[OF ic] by blast
  have 7: "\<forall>k l. columns_list_by_table c k = Some l \<longrightarrow>
               (\<exists>cs. map_of (columns_by_table c) k = Some cs \<and> set cs = set l)"
  proof (intro allI impI)
    fix k l assume l: "columns_list_by_table c k = Some l"
    with scoped_invD1[OF ic, of k] obtain cs where cs: "map_of (columns_by_table c) k = Some cs"
      by (cases "map_of (columns_by_table c) k") auto
    from scoped_invD2[OF ic cs] l cs
    show "\<exists>cs. map_of (columns_by_table c) k = Some cs \<and> set cs = set l" by auto
  qed
  have 8: "distinct (map lower (schema_names raw)) \<longrightarrow> distinct (schemas_list c)"
    by (simp add: f(6))
  have 9: "tables_map c k = List.find (\<lambda>M. lower M = k) (table_names raw)"
    by (simp add: f(2) first_casing_find)
  have 10: "columns_map c k = List.find (\<lambda>M. lower M = k) (column_names raw)"
    by (simp add: f(3) first_casing_find)
  have 13: "schemas_map c k = List.find (\<lambda>M. lower M = k) (rev (schema_names raw))"
    by (rule schemas_map_last_casing[where fs = fs and p = p, OF assms])
  have 11: "\<forall>s \<in> set (schema_names raw).
               map_of (tables_by_schema c) (lower s) \<noteq> None
               \<and> tables_list_by_schema c (lower s) \<noteq> None"
  proof
    fix s assume "s \<in> set (schema_names raw)"
    then have "lower s \<in> dom (tables_list_by_schema c)" by (simp add: f(7))
    then have l: "tables_list_by_schema c (lower s) \<noteq> None" by auto
    with scoped_invD1[OF it, of "lower s"]
    show "map_of (tables_by_schema c) (lower s) \<noteq> None
          \<and> tables_list_by_schema c (lower s) \<noteq> None"
      by auto
  qed
  have 12: "\<forall>(s, t, cols) \<in> set (table_entries raw).
               map_of (columns_by_table c) (lower s, lower t) \<noteq> None
               \<and> columns_list_by_table c (lower s, lower t) \<noteq> None"
  proof (clarify, rule conjI)
    fix s t cols assume en: "(s, t, cols) \<in> set (table_entries raw)"
    let ?ps = "map (\<lambda>(s, t, cols). ((lower s, lower t), map lower cols)) (table_entries raw)"
    from en have "((lower s, lower t), map lower cols) \<in> set (rev ?ps)" by force
    from weak_map_of_SomeI[OF this]
    have l: "columns_list_by_table c (lower s, lower t) \<noteq> None" by (auto simp: f(4))
    then show "columns_list_by_table c (lower s, lower t) \<noteq> None" .
    show "map_of (columns_by_table c) (lower s, lower t) \<noteq> None"
    proof
      assume "map_of (columns_by_table c) (lower s, lower t) = None"
      from scoped_invD1[OF ic this] l show False by simp
    qed
  qed
  from 1 2 3 4 5 6 7 8 9 10 11 12 13 show ?thesis by blast
qed

section \<open>The typeahead results\<close>







section \<open>The built index on examples\<close>

lemma dev_file:
  "[''metadata_dev.pkl'' \<mapsto> Pickled (snapshot raw PNone)] ''metadata_dev.pkl''
   = Some (Pickled (snapshot raw PNone))"
  by simp

theorem original_casing_first_wins_witness:
  "get_original_table (index_of case_variant_tables_raw) ''users'' = Some ''Users''
   \<and> ''Student'' \<in> set (names_at ''table'' sample_raw)
   \<and> get_original_for_scope (index_of sample_raw) ''table'' (lower ''Student'') = Some ''Student''"
proof -
  from original_casing_first_wins[OF dev_file load_index_of,
         where k = "''users''" and N = "''Users''" and scope = "''table''"]
  have "get_original_table (index_of case_variant_tables_raw) ''users''
        = List.find (\<lambda>M. lower M = ''users'') (table_names case_variant_tables_raw)"
    by blast
  also have "\<dots> = Some ''Users''" by code_simp
  finally have 1: "get_original_table (index_of case_variant_tables_raw) ''users'' = Some ''Users''" .
  have 2: "''Student'' \<in> set (names_at ''table'' sample_raw)" by code_simp
  have 3: "\<forall>M \<in> set (names_at ''table'' sample_raw). lower M = lower ''Student'' \<longrightarrow> M = ''Student''"
    by code_simp
  from original_casing_first_wins[OF dev_file load_index_of,
         where k = "''student''" and N = "''Student''" and scope = "''table''"] 2 3
  have "get_original_for_scope (index_of sample_raw) ''table'' (lower ''Student'') = Some ''Student''"
    by blast
  with 1 2 show ?thesis by (simp only: simp_thms)
qed

theorem later_casing_lost_counterexample:
  "''USERS'' \<in> set (names_at ''table'' case_variant_tables_raw)
   \<and> get_original_for_scope (index_of case_variant_tables_raw) ''table'' (lower ''USERS'')
     = Some ''Users''"
  by code_simp

theorem column_candidates_roundtrip_witness:
  "(''public'', ''Student'', [''id'', ''name'', ''email'']) \<in> set (table_entries sample_raw)
   \<and> get_candidates_for_scope (index_of sample_raw) ''column'' (Some ''public'') (Some ''Student'')
     = [''id'', ''name'', ''email'']
   \<and> column_exists (index_of sample_raw) ''Email'' (Some ''public'') (Some ''Student'')
   \<and> distinct (get_candidates_for_scope (index_of sample_raw) ''column''
                  (Some ''public'') (Some ''Student''))"
proof -
  have 1: "(''public'', ''Student'', [''id'', ''name'', ''email'']) \<in> set (table_entries sample_raw)"
    by code_simp
  have 2: "''public'' \<noteq> []" "''Student'' \<noteq> []" by simp_all
  have 3: "\<forall>(s', t', cols') \<in> set (table_entries sample_raw).
             lower s' = lower ''public'' \<and> lower t' = lower ''Student''
             \<longrightarrow> cols' = [''id'', ''name'', ''email'']"
    by code_simp
  have 4: "map lower [''id'', ''name'', ''email''] = [''id'', ''name'', ''email'']" by code_simp
  have 5: "lower ''Email'' \<in> set [''id'', ''name'', ''email'']" by code_simp
  have 6: "distinct [''id'', ''name'', ''email'']" by simp
  from column_candidates_roundtrip[OF dev_file load_index_of 1 2 3]
  have a: "get_candidates_for_scope (index_of sample_raw) ''column'' (Some ''public'') (Some ''Student'')
           = [''id'', ''name'', ''email'']"
    and b: "column_exists (index_of sample_raw) ''Email'' (Some ''public'') (Some ''Student'')
            \<longleftrightarrow> lower ''Email'' \<in> set [''id'', ''name'', ''email'']"
    and c: "distinct [''id'', ''name'', ''email'']
            \<longrightarrow> distinct (get_candidates_for_scope (index_of sample_raw) ''column''
                  (Some ''public'') (Some ''Student''))"
    unfolding 4 by blast+
  from 1 a b c 5 6 show ?thesis by (simp only: simp_thms)
qed

theorem duplicate_column_twice_counterexample:
  "get_candidates_for_scope (index_of duplicate_column_raw) ''column'' (Some ''S'') (Some ''T'')
   = [''id'', ''id'']"
  by code_simp

theorem redeclared_table_replaces_witness:
  "columns_list_by_table (index_of redeclared_table_raw) (''s'', ''t'') = Some [''b'']
   \<and> last_declared redeclared_table_raw (''s'', ''t'') = Some [''b'']"
proof -
  have 1: "last_declared redeclared_table_raw (''s'', ''t'') = Some [''b'']" by code_simp
  have 2: "lower ''b'' = ''b''" by code_simp
  from redeclared_table_replaces[OF dev_file load_index_of, where key = "(''s'', ''t'')"]
  have "columns_list_by_table (index_of redeclared_table_raw) (''s'', ''t'')
        = map_option (map lower) (last_declared redeclared_table_raw (''s'', ''t''))"
    by blast
  then have "columns_list_by_table (index_of redeclared_table_raw) (''s'', ''t'') = Some [''b'']"
    unfolding 1 by (simp add: 2)
  with 1 show ?thesis by (simp only: simp_thms)
qed

theorem redeclared_table_drops_columns_counterexample:
  "map_of (columns_by_table (index_of redeclared_table_raw)) (''s'', ''t'') = Some [''b'']
   \<and> get_candidates_for_scope (index_of redeclared_table_raw) ''column'' (Some ''S'') (Some ''T'')
     = [''b'']
   \<and> \<not> column_exists (index_of redeclared_table_raw) ''a'' (Some ''S'') (Some ''T'')
   \<and> column_exists (index_of redeclared_table_raw) ''a'' None None"
  by code_simp

theorem build_invariants_witness:
  "set (columns_list (index_of sample_raw)) = columns_set (index_of sample_raw)
   \<and> dom (columns_map (index_of sample_raw)) = columns_set (index_of sample_raw)
   \<and> distinct (tables_list (index_of sample_raw))
   \<and> distinct (columns_list (index_of sample_raw))
   \<and> distinct (schemas_list (index_of sample_raw))
   \<and> tables_map (index_of sample_raw) ''student'' = Some ''Student''
   \<and> map_of (tables_by_schema (index_of sample_raw)) ''public'' \<noteq> None
   \<and> columns_list_by_table (index_of sample_raw) (''public'', ''student'') \<noteq> None"
proof -
  note t = build_invariants[OF dev_file load_index_of, where raw = sample_raw
             and k = "''student''"]
  have 1: "distinct (map lower (schema_names sample_raw))" by code_simp
  have 2: "List.find (\<lambda>M. lower M = ''student'') (table_names sample_raw) = Some ''Student''"
    by code_simp
  have 3: "''public'' \<in> set (schema_names sample_raw)" by code_simp
  have 4: "(''public'', ''Student'', [''id'', ''name'', ''email'']) \<in> set (table_entries sample_raw)"
    by code_simp
  have 5: "lower ''public'' = ''public''" "lower ''Student'' = ''student''" by code_simp+
  from t have a: "set (columns_list (index_of sample_raw)) = columns_set (index_of sample_raw)"
    by (elim conjE)
  from t have b: "dom (columns_map (index_of sample_raw)) = columns_set (index_of sample_raw)"
    by (elim conjE)
  from t have c: "distinct (tables_list (index_of sample_raw))"
    by (elim conjE)
  from t have d: "distinct (columns_list (index_of sample_raw))"
    by (elim conjE)
  from t have "distinct (map lower (schema_names sample_raw))
               \<longrightarrow> distinct (schemas_list (index_of sample_raw))"
    by (elim conjE)
  with 1 have e: "distinct (schemas_list (index_of sample_raw))" by (simp only: simp_thms)
  from t have "tables_map (index_of sample_raw) ''student''
               = List.find (\<lambda>M. lower M = ''student'') (table_names sample_raw)"
    by (elim conjE)
  then have f: "tables_map (index_of sample_raw) ''student'' = Some ''Student''"
    unfolding 2 .
  from t have "\<forall>s \<in> set (schema_names sample_raw).
               map_of (tables_by_schema (index_of sample_raw)) (lower s) \<noteq> None
               \<and> tables_list_by_schema (index_of sample_raw) (lower s) \<noteq> None"
    by (elim conjE)
  from bspec[OF this 3]
  have g: "map_of (tables_by_schema (index_of sample_raw)) ''public'' \<noteq> None"
    unfolding 5 by (rule conjunct1)
  from t have "\<forall>(s, t, cols) \<in> set (table_entries sample_raw).
               map_of (columns_by_table (index_of sample_raw)) (lower s, lower t) \<noteq> None
               \<and> columns_list_by_table (index_of sample_raw) (lower s, lower t) \<noteq> None"
    by (elim conjE)
  from bspec[OF this 4]
  have h: "columns_list_by_table (index_of sample_raw) (''public'', ''student'') \<noteq> None"
    unfolding 5 prod.case by (rule conjunct2)
  from a b c d e f g h show ?thesis by (simp only: simp_thms)
qed

theorem schemas_list_duplicates_counterexample:
  "schemas_list (index_of case_variant_schemas_raw) = [''a'', ''a'']
   \<and> \<not> distinct (schemas_list (index_of case_variant_schemas_raw))
   \<and> get_original_schema (index_of case_variant_schemas_raw) ''a'' = Some ''a''
   \<and> List.find (\<lambda>M. lower M = ''a'') (schema_names case_variant_schemas_raw) = Some ''A''"
  by code_simp




end
